theory Spec2Isabelle
  imports Complex_Main "HOL-Library.Word" "HOL-Library.Char_ord" "HOL-Library.List_Lexorder"
    "HOL-Library.AList" "HOL-Library.Multiset"
begin

section \<open>Strings and paths\<close>

text \<open>
  The program runs on POSIX paths: \<open>os.sep\<close> is the slash. \<open>split_chr c s\<close> is Python's
  \<open>s.split(c)\<close> for a one-character separator; its result is never empty, so the
  \<open>[-1]\<close> and \<open>[0]\<close> the program applies to it cannot raise.
\<close>

definition sep :: char where
  "sep = CHR ''/''"

fun split_chr :: "char \<Rightarrow> string \<Rightarrow> string list" where
  "split_chr c [] = [[]]"
| "split_chr c (x # xs) =
     (if x = c then [] # split_chr c xs
      else (let r = split_chr c xs in (x # hd r) # tl r))"

text \<open>\<open>input_pdf.split(os.sep)[-1].split('.')[0]\<close>, the expression every stage starts with.\<close>

definition file_name :: "string \<Rightarrow> string" where
  "file_name input_pdf = hd (split_chr (CHR ''.'') (last (split_chr sep input_pdf)))"

text \<open>\<open>os.path.join\<close> of two parts (posixpath).\<close>

definition path_join :: "string \<Rightarrow> string \<Rightarrow> string" where
  "path_join a b =
     (if b \<noteq> [] \<and> hd b = sep then b
      else if a = [] \<or> last a = sep then a @ b
      else a @ [sep] @ b)"

text \<open>The decimal text of a number, as an f-string writes it.\<close>

definition digit_chr :: "nat \<Rightarrow> char" where
  "digit_chr d = char_of (48 + d)"

fun str_nat :: "nat \<Rightarrow> string" where
  "str_nat n = (if n < 10 then [digit_chr n] else str_nat (n div 10) @ [digit_chr (n mod 10)])"

declare str_nat.simps [simp del]

text \<open>The number a decimal text stands for.\<close>

definition nat_of_str :: "string \<Rightarrow> nat" where
  "nat_of_str t = foldl (\<lambda>a c. 10 * a + (of_char c - 48)) 0 t"

text \<open>
  Where a path leads: whether it is absolute, and the names on the way, with empty and
  \<open>.\<close> parts dropped and \<open>..\<close> resolved against the part before it. Folders are not
  objects of the model: the folders the driver names are taken to exist, and no name is
  both a file and a folder.
\<close>

type_synonym location = "bool \<times> string list"

definition normpath_step :: "bool \<Rightarrow> string list \<Rightarrow> string \<Rightarrow> string list" where
  "normpath_step ab st c =
     (if c = [] \<or> c = ''.'' then st
      else if c = ''..'' then
        (case st of
           [] \<Rightarrow> if ab then [] else [''..'']
         | t # ts \<Rightarrow> if t = ''..'' then ''..'' # st else ts)
      else c # st)"

definition is_abs :: "string \<Rightarrow> bool" where
  "is_abs p = (p \<noteq> [] \<and> hd p = sep)"

definition locate :: "string \<Rightarrow> location" where
  "locate p = (is_abs p, rev (foldl (normpath_step (is_abs p)) [] (split_chr sep p)))"

text \<open>A path names a file only if its last part is a proper name.\<close>

definition proper_name :: "string \<Rightarrow> bool" where
  "proper_name n = (n \<noteq> [] \<and> n \<noteq> ''.'' \<and> n \<noteq> ''..'' \<and> sep \<notin> set n)"

definition is_file_path :: "string \<Rightarrow> bool" where
  "is_file_path p = proper_name (last (split_chr sep p))"

section \<open>Rasters and documents\<close>

text \<open>
  A numpy array is a shape and a flat buffer. A page image is an array of bytes; a PDF
  page is its media box and what is drawn on it, in drawing order; a PDF file has pages,
  descriptive metadata and, once sealed, an encryption record.
\<close>

record 'a ndarray =
  shape :: "nat list"
  data :: "'a list"

type_synonym image = "8 word ndarray"

datatype drawing = Original string | DrawImage image rat rat

record page =
  mediabox :: "rat \<times> rat"
  contents :: "drawing list"

text \<open>The field \<open>extract\<close> of \<open>pikepdf.Permissions\<close> is \<open>extract_perm\<close> here.\<close>

record permissions =
  accessibility :: bool
  extract_perm :: bool
  modify_annotation :: bool
  modify_assembly :: bool
  modify_form :: bool
  modify_other :: bool
  print_lowres :: bool
  print_highres :: bool

record encryption =
  user :: string
  owner :: string
  revision :: nat
  allow :: permissions

record pdf =
  pages :: "page list"
  metadata :: "(string \<times> string) list"
  encrypted :: "encryption option"

datatype stored = PdfFile pdf | PngFile image

datatype error =
  FileNotFoundError | IsADirectoryError | PdfReadError | ImageReadError
  | IndexError | ValueError | Cv2Error

section \<open>The file system\<close>

type_synonym fs = "(location \<times> stored) list"

definition read_file :: "fs \<Rightarrow> string \<Rightarrow> error + stored" where
  "read_file s p =
     (if \<not> is_file_path p then Inl IsADirectoryError
      else case map_of s (locate p) of None \<Rightarrow> Inl FileNotFoundError | Some f \<Rightarrow> Inr f)"

text \<open>\<open>open(p, 'wb')\<close> and a write: whatever was at the path is replaced.\<close>

definition write_file :: "fs \<Rightarrow> string \<Rightarrow> stored \<Rightarrow> error + fs" where
  "write_file s p f =
     (if \<not> is_file_path p then Inl IsADirectoryError
      else Inr (AList.update (locate p) f s))"

definition os_remove :: "fs \<Rightarrow> string \<Rightarrow> error + fs" where
  "os_remove s p =
     (if \<not> is_file_path p then Inl IsADirectoryError
      else case map_of s (locate p) of
             None \<Rightarrow> Inl FileNotFoundError
           | Some f \<Rightarrow> Inr (AList.delete (locate p) s))"

text \<open>\<open>os.path.exists\<close>, asked by the program only of a path that ends in a file name.\<close>

definition path_exists :: "fs \<Rightarrow> string \<Rightarrow> bool" where
  "path_exists s p = (is_file_path p \<and> map_of s (locate p) \<noteq> None)"

text \<open>
  \<open>os.rename\<close> on POSIX: a file already at the destination is replaced without an
  error.
\<close>

definition os_rename :: "fs \<Rightarrow> string \<Rightarrow> string \<Rightarrow> error + fs" where
  "os_rename s src dst =
     (if \<not> is_file_path src \<or> \<not> is_file_path dst then Inl IsADirectoryError
      else case map_of s (locate src) of
             None \<Rightarrow> Inl FileNotFoundError
           | Some f \<Rightarrow> Inr (AList.update (locate dst) f (AList.delete (locate src) s)))"

definition read_pdf :: "fs \<Rightarrow> string \<Rightarrow> error + pdf" where
  "read_pdf s p =
     (case read_file s p of
        Inl e \<Rightarrow> Inl e
      | Inr (PdfFile d) \<Rightarrow> Inr d
      | Inr (PngFile i) \<Rightarrow> Inl PdfReadError)"

section \<open>Sealing: metadata and encryption\<close>

definition set_meta :: "string \<Rightarrow> string \<Rightarrow> (string \<times> string) list \<Rightarrow> (string \<times> string) list" where
  "set_meta k v m = AList.update k v m"

text \<open>
  The metadata record holds the keys the program sets; \<open>today1\<close> and \<open>today2\<close>
  are the two readings of the clock (\<open>datetime.today().isoformat()\<close>).
\<close>

definition add_metadata :: "string \<Rightarrow> string \<Rightarrow> (string \<times> string) list \<Rightarrow> (string \<times> string) list" where
  "add_metadata today1 today2 m =
     (set_meta ''xmpRights:WebStatement'' ''http://www.tapirlab.com''
     (set_meta ''xmp:CreatorTool''
        (''Tapir Lab.'' @ [CHR 0x27] @ ''s Automatic Watermarking Script'')
     (set_meta ''xmp:ModifyDate'' today2
     (set_meta ''xmp:CreateDate'' today1
     (set_meta ''dc:rights'' ''Tapir Lab. License''
     (set_meta ''dc:subject''
        (''Probability, statistics, communications...'' @ [CHR 0x0A]
           @ ''            ALL HAIL TAPIR!'' @ [CHR 0x0A] @ ''            tapirlab.com'')
     (set_meta ''dc:description'' ''Tapir Lab. Fall-2020 Lecture Notes''
     (set_meta ''dc:creator'' ''Serhan Yarkan, Tapir Lab.''
     (set_meta ''dc:title'' ''Lecture Notes'' m)))))))))"

definition seal_permissions :: permissions where
  "seal_permissions =
     \<lparr> accessibility = False, extract_perm = False, modify_annotation = False,
       modify_assembly = False, modify_form = False, modify_other = False,
       print_lowres = True, print_highres = True \<rparr>"

text \<open>
  \<open>pikepdf.Encryption(user=, owner=, allow=)\<close> leaves the revision at the library's
  default, 6. On saving, the library writes the permissions as given except for the
  accessibility bit, which it keeps set for every revision above 3: a document of such a
  revision cannot deny accessibility.
\<close>

definition pikepdf_Encryption :: "string \<Rightarrow> string \<Rightarrow> permissions \<Rightarrow> encryption" where
  "pikepdf_Encryption usr own perms =
     \<lparr>user = usr, owner = own, revision = 6, allow = perms\<rparr>"

definition saved_encryption :: "encryption \<Rightarrow> encryption" where
  "saved_encryption e =
     (if 3 < revision e then e\<lparr>allow := (allow e)\<lparr>accessibility := True\<rparr>\<rparr> else e)"

definition final_path :: "string \<Rightarrow> string \<Rightarrow> string" where
  "final_path input_pdf output_folder =
     path_join output_folder (file_name input_pdf @ ''_final'' @ ''.pdf'')"

definition encrypt_and_add_metadata ::
  "string \<Rightarrow> string \<Rightarrow> fs \<Rightarrow> string \<Rightarrow> string \<Rightarrow> string \<Rightarrow> string \<Rightarrow> bool \<Rightarrow> error + fs" where
  "encrypt_and_add_metadata today1 today2 s input_pdf output_folder usr_pass owner_pass
       remove_original =
     (let output_pdf = final_path input_pdf output_folder in
      case read_pdf s input_pdf of
        Inl e \<Rightarrow> Inl e
      | Inr d \<Rightarrow>
          (let d1 = d\<lparr>metadata := add_metadata today1 today2 (metadata d)\<rparr>;
               permissions = seal_permissions;
               sealed = d1\<lparr>encrypted :=
                 Some (saved_encryption (pikepdf_Encryption usr_pass owner_pass permissions))\<rparr>
           in case write_file s output_pdf (PdfFile sealed) of
                Inl e \<Rightarrow> Inl e
              | Inr s1 \<Rightarrow> if remove_original then os_remove s1 input_pdf else Inr s1))"

section \<open>Page set-up and drawing\<close>

text \<open>
  reportlab's sizes are in points, \<open>mm = 72 / 25.4\<close>; the floats are taken as the exact
  fractions. A canvas holds the name it will be saved under, its page size and what has
  been drawn; nothing is written before \<open>save\<close>.
\<close>

definition mm :: rat where
  "mm = 360 / 127"

definition A4 :: "rat \<times> rat" where
  "A4 = (210 * mm, 297 * mm)"

definition landscape :: "rat \<times> rat \<Rightarrow> rat \<times> rat" where
  "landscape pagesize = (if fst pagesize < snd pagesize then (snd pagesize, fst pagesize) else pagesize)"

record canvas =
  filename :: string
  pagesize :: "rat \<times> rat"
  drawn :: "drawing list"

definition set_page :: "string \<Rightarrow> string \<Rightarrow> canvas" where
  "set_page name orientation =
     (if orientation = ''landscape''
      then \<lparr>filename = name, pagesize = landscape A4, drawn = []\<rparr>
      else \<lparr>filename = name, pagesize = A4, drawn = []\<rparr>)"

definition drawImage :: "fs \<Rightarrow> canvas \<Rightarrow> string \<Rightarrow> rat \<Rightarrow> rat \<Rightarrow> error + canvas" where
  "drawImage s c image_path w h =
     (case read_file s image_path of
        Inl e \<Rightarrow> Inl e
      | Inr (PngFile i) \<Rightarrow> Inr (c\<lparr>drawn := drawn c @ [DrawImage i w h]\<rparr>)
      | Inr (PdfFile d) \<Rightarrow> Inl ImageReadError)"

definition draw_image :: "fs \<Rightarrow> canvas \<Rightarrow> string \<Rightarrow> string \<Rightarrow> error + canvas" where
  "draw_image s canvas0 image_path orientation =
     (if orientation = ''landscape''
      then drawImage s canvas0 image_path (snd A4) (fst A4)
      else drawImage s canvas0 image_path (fst A4) (snd A4))"

definition canvas_save :: "fs \<Rightarrow> canvas \<Rightarrow> error + fs" where
  "canvas_save s c =
     write_file s (filename c)
       (PdfFile \<lparr>pages = [\<lparr>mediabox = pagesize c, contents = drawn c\<rparr>],
                 metadata = [], encrypted = None\<rparr>)"

section \<open>Noise and blur\<close>

text \<open>
  numpy's global generator is the sequence of standard normal draws it will give next;
  \<open>np.random.normal(loc, scale, n)\<close> takes the first \<open>n\<close> of them and leaves the rest.
  The draws are taken as exact fractions. \<open>astype('uint8')\<close> of a float array drops the
  fraction and keeps the low eight bits of the integer (the conversion numpy performs on
  x86-64). \<open>cv2.add\<close> of two byte arrays saturates at 255. The Gaussian blur itself is
  the library's: a parameter of the model.
\<close>

type_synonym rng = "nat \<Rightarrow> rat"

definition random_normal :: "rat \<Rightarrow> rat \<Rightarrow> nat \<Rightarrow> rng \<Rightarrow> error + (rat list \<times> rng)" where
  "random_normal loc scale n g =
     (if scale < 0 then Inl ValueError
      else Inr (map (\<lambda>i. loc + scale * g i) [0..<n], (\<lambda>i. g (i + n))))"

definition trunc :: "rat \<Rightarrow> int" where
  "trunc x = (if 0 \<le> x then \<lfloor>x\<rfloor> else \<lceil>x\<rceil>)"

definition astype_uint8 :: "rat \<Rightarrow> 8 word" where
  "astype_uint8 x = word_of_int (trunc x)"

definition size_of :: "'a ndarray \<Rightarrow> nat" where
  "size_of a = prod_list (shape a)"

definition reshape3 :: "'a ndarray \<Rightarrow> nat \<Rightarrow> nat \<Rightarrow> nat \<Rightarrow> error + 'a ndarray" where
  "reshape3 a d0 d1 d2 =
     (if d0 * d1 * d2 = length (data a) then Inr \<lparr>shape = [d0, d1, d2], data = data a\<rparr>
      else Inl ValueError)"

definition saturate_add :: "8 word \<Rightarrow> 8 word \<Rightarrow> 8 word" where
  "saturate_add a b = (if 255 < unat a + unat b then 255 else a + b)"

definition cv2_add :: "image \<Rightarrow> image \<Rightarrow> error + image" where
  "cv2_add a b =
     (if shape a = shape b
      then Inr \<lparr>shape = shape a, data = map2 saturate_add (data a) (data b)\<rparr>
      else Inl Cv2Error)"

text \<open>Lines 74 to 77 of \<open>blur_image\<close>: the noise is drawn, cast to bytes and added.\<close>

definition add_gauss :: "rng \<Rightarrow> image \<Rightarrow> rat \<Rightarrow> error + (image \<times> rng)" where
  "add_gauss g img sigma =
     (case random_normal 0 sigma (size_of img) g of
        Inl e \<Rightarrow> Inl e
      | Inr (gauss, g1) \<Rightarrow>
          if length (shape img) < 3 then Inl IndexError
          else
            (case reshape3 \<lparr>shape = [size_of img], data = gauss\<rparr>
                    (shape img ! 0) (shape img ! 1) (shape img ! 2) of
               Inl e \<Rightarrow> Inl e
             | Inr r \<Rightarrow>
                 (case cv2_add img \<lparr>shape = shape r, data = map astype_uint8 (data r)\<rparr> of
                    Inl e \<Rightarrow> Inl e
                  | Inr img_gauss \<Rightarrow> Inr (img_gauss, g1))))"

type_synonym blur_fn = "image \<Rightarrow> nat \<times> nat \<Rightarrow> rat \<Rightarrow> error + image"

definition blur_image :: "blur_fn \<Rightarrow> rng \<Rightarrow> image \<Rightarrow> nat \<times> nat \<Rightarrow> rat \<Rightarrow> error + (image \<times> rng)" where
  "blur_image GaussianBlur g page ksize sigma =
     (case add_gauss g page sigma of
        Inl e \<Rightarrow> Inl e
      | Inr (img_gauss, g1) \<Rightarrow>
          (case GaussianBlur img_gauss ksize sigma of
             Inl e \<Rightarrow> Inl e
           | Inr blurred_image \<Rightarrow> Inr (blurred_image, g1)))"

section \<open>Rasterizing\<close>

text \<open>
  \<open>convert_from_path\<close> gives one image per page, in page order; how a page looks at a
  resolution is the rasterizer's business: the parameter \<open>render\<close>.
\<close>

type_synonym render_fn = "nat \<Rightarrow> page \<Rightarrow> image"

definition convert_from_path :: "render_fn \<Rightarrow> fs \<Rightarrow> string \<Rightarrow> nat \<Rightarrow> error + image list" where
  "convert_from_path render s path_to_pdf dpi =
     (case read_pdf s path_to_pdf of
        Inl e \<Rightarrow> Inl e
      | Inr d \<Rightarrow> Inr (map (render dpi) (pages d)))"

definition png_name :: "nat \<Rightarrow> string" where
  "png_name j = ''_'' @ str_nat j @ ''.png''"

text \<open>Where the image of page \<open>j\<close> lies, for an output folder.\<close>

definition png_loc :: "string \<Rightarrow> nat \<Rightarrow> location" where
  "png_loc folder j = (fst (locate folder), snd (locate folder) @ [png_name j])"

fun save_pages ::
  "blur_fn \<Rightarrow> fs \<times> rng \<Rightarrow> string \<Rightarrow> bool \<Rightarrow> nat \<times> nat \<Rightarrow> rat \<Rightarrow> (image \<times> nat) list
     \<Rightarrow> error + (fs \<times> rng)" where
  "save_pages B (s, g) output_folder blur ksize sigma [] = Inr (s, g)"
| "save_pages B (s, g) output_folder blur ksize sigma ((page, j) # rest) =
     (let png_output = path_join ''.'' (path_join output_folder (png_name j)) in
      if blur then
        (case blur_image B g page ksize sigma of
           Inl e \<Rightarrow> Inl e
         | Inr (blurred_image, g1) \<Rightarrow>
             (case write_file s png_output (PngFile blurred_image) of
                Inl e \<Rightarrow> Inl e
              | Inr s1 \<Rightarrow> save_pages B (s1, g1) output_folder blur ksize sigma rest))
      else
        (case write_file s png_output (PngFile page) of
           Inl e \<Rightarrow> Inl e
         | Inr s1 \<Rightarrow> save_pages B (s1, g) output_folder blur ksize sigma rest))"

definition pdf_to_image ::
  "render_fn \<Rightarrow> blur_fn \<Rightarrow> fs \<times> rng \<Rightarrow> string \<Rightarrow> string \<Rightarrow> nat \<Rightarrow> bool \<Rightarrow> nat \<times> nat \<Rightarrow> rat
     \<Rightarrow> error + (fs \<times> rng)" where
  "pdf_to_image render B st path_to_pdf output_folder dpi blur ksize sigma =
     (case convert_from_path render (fst st) path_to_pdf dpi of
        Inl e \<Rightarrow> Inl e
      | Inr pgs \<Rightarrow>
          save_pages B st output_folder blur ksize sigma (zip pgs [0..<length pgs]))"

section \<open>Listing a folder\<close>

text \<open>
  \<open>glob.glob(os.path.join(folder, '*' + suffix))\<close>: the files right under the folder
  whose names end with the suffix and do not start with a dot, each as the folder joined
  with the name. The order of a listing is the file system's; the program sorts it.
\<close>

definition listdir :: "fs \<Rightarrow> string \<Rightarrow> string list" where
  "listdir s folder =
     map (\<lambda>(l, f). last (snd l))
       (filter (\<lambda>(l, f). fst l = fst (locate folder) \<and> snd l \<noteq> []
                  \<and> butlast (snd l) = snd (locate folder)) s)"

definition fnmatch_star :: "string \<Rightarrow> string \<Rightarrow> bool" where
  "fnmatch_star suffix n =
     (length suffix \<le> length n \<and> drop (length n - length suffix) n = suffix
      \<and> take 1 n \<noteq> ''.'')"

definition glob_star :: "fs \<Rightarrow> string \<Rightarrow> string \<Rightarrow> string list" where
  "glob_star s folder suffix =
     map (path_join folder) (filter (fnmatch_star suffix) (listdir s folder))"

section \<open>Recomposing and merging\<close>

definition tmp_name :: "nat \<Rightarrow> string" where
  "tmp_name j = ''tmp_'' @ str_nat j @ ''.pdf''"

text \<open>Where the one-page document number \<open>j\<close> lies, for an output folder.\<close>

definition pdf_loc :: "string \<Rightarrow> nat \<Rightarrow> location" where
  "pdf_loc folder j = (fst (locate folder), snd (locate folder) @ [tmp_name j])"

text \<open>
  The page that \<open>set_page\<close>, \<open>draw_image\<close> and \<open>save\<close> make of an image: the A4 box
  of the orientation, and the image drawn over all of it.
\<close>

definition image_page :: "string \<Rightarrow> image \<Rightarrow> page" where
  "image_page orientation img =
     (if orientation = ''landscape''
      then \<lparr>mediabox = landscape A4, contents = [DrawImage img (snd A4) (fst A4)]\<rparr>
      else \<lparr>mediabox = A4, contents = [DrawImage img (fst A4) (snd A4)]\<rparr>)"

fun draw_pages :: "fs \<Rightarrow> string \<Rightarrow> string \<Rightarrow> bool \<Rightarrow> (string \<times> nat) list \<Rightarrow> error + fs" where
  "draw_pages s output_folder orientation remove_artifacts [] = Inr s"
| "draw_pages s output_folder orientation remove_artifacts ((image_path, j) # rest) =
     (let canvas0 = set_page (path_join output_folder (tmp_name j)) orientation in
      case draw_image s canvas0 image_path orientation of
        Inl e \<Rightarrow> Inl e
      | Inr c \<Rightarrow>
          (case canvas_save s c of
             Inl e \<Rightarrow> Inl e
           | Inr s1 \<Rightarrow>
               if remove_artifacts then
                 (case os_remove s1 image_path of
                    Inl e \<Rightarrow> Inl e
                  | Inr s2 \<Rightarrow> draw_pages s2 output_folder orientation remove_artifacts rest)
               else draw_pages s1 output_folder orientation remove_artifacts rest))"

definition image_to_pdf :: "fs \<Rightarrow> string \<Rightarrow> string \<Rightarrow> string \<Rightarrow> bool \<Rightarrow> error + fs" where
  "image_to_pdf s images_folder output_folder orientation remove_artifacts =
     (let path_to_images = sort (glob_star s images_folder ''.png'') in
      draw_pages s output_folder orientation remove_artifacts
        (zip path_to_images [0..<length path_to_images]))"

text \<open>
  The merger reads each input when it is appended and writes what it has collected, be
  it no page at all.
\<close>

fun append_all :: "fs \<Rightarrow> page list \<Rightarrow> string list \<Rightarrow> error + page list" where
  "append_all s pdf_merger [] = Inr pdf_merger"
| "append_all s pdf_merger (path # rest) =
     (case read_pdf s path of
        Inl e \<Rightarrow> Inl e
      | Inr d \<Rightarrow> append_all s (pdf_merger @ pages d) rest)"

fun remove_all :: "fs \<Rightarrow> string list \<Rightarrow> error + fs" where
  "remove_all s [] = Inr s"
| "remove_all s (p # rest) =
     (case os_remove s p of
        Inl e \<Rightarrow> Inl e
      | Inr s1 \<Rightarrow> remove_all s1 rest)"

definition merge_pdfs :: "fs \<Rightarrow> string \<Rightarrow> string \<Rightarrow> bool \<Rightarrow> error + fs" where
  "merge_pdfs s input_folder path_to_output_pdf remove_artifacts =
     (let input_pdfs = sort (glob_star s input_folder ''.pdf'') in
      case append_all s [] input_pdfs of
        Inl e \<Rightarrow> Inl e
      | Inr merged \<Rightarrow>
          (case write_file s path_to_output_pdf
                  (PdfFile \<lparr>pages = merged, metadata = [], encrypted = None\<rparr>) of
             Inl e \<Rightarrow> Inl e
           | Inr s1 \<Rightarrow> if remove_artifacts then remove_all s1 input_pdfs else Inr s1))"

definition im2pdf_path :: "string \<Rightarrow> string \<Rightarrow> string" where
  "im2pdf_path input_pdf output_folder =
     path_join output_folder (file_name input_pdf @ ''_im2pdf'' @ ''.pdf'')"

definition pdf_to_image_to_pdf ::
  "render_fn \<Rightarrow> blur_fn \<Rightarrow> fs \<times> rng \<Rightarrow> string \<Rightarrow> string \<Rightarrow> string \<Rightarrow> string \<Rightarrow> bool \<Rightarrow> bool
     \<Rightarrow> error + ((fs \<times> rng) \<times> string)" where
  "pdf_to_image_to_pdf render B st input_pdf tmp_folder output_folder orientation
       remove_original remove_artifacts =
     (let output_pdf = im2pdf_path input_pdf output_folder in
      case pdf_to_image render B st input_pdf tmp_folder 100 False (5, 5) 1 of
        Inl e \<Rightarrow> Inl e
      | Inr (s1, g1) \<Rightarrow>
          (case image_to_pdf s1 tmp_folder tmp_folder orientation remove_artifacts of
             Inl e \<Rightarrow> Inl e
           | Inr s2 \<Rightarrow>
               (case merge_pdfs s2 tmp_folder output_pdf remove_artifacts of
                  Inl e \<Rightarrow> Inl e
                | Inr s3 \<Rightarrow>
                    if remove_original then
                      (case os_remove s3 input_pdf of
                         Inl e \<Rightarrow> Inl e
                       | Inr s4 \<Rightarrow> Inr ((s4, g1), output_pdf))
                    else Inr ((s3, g1), output_pdf))))"

definition blurred_path :: "string \<Rightarrow> string \<Rightarrow> string" where
  "blurred_path input_pdf output_folder =
     path_join output_folder (file_name input_pdf @ ''_blurred'' @ ''.pdf'')"

definition blur_pages_of_pdf ::
  "render_fn \<Rightarrow> blur_fn \<Rightarrow> fs \<times> rng \<Rightarrow> string \<Rightarrow> string \<Rightarrow> string \<Rightarrow> string \<Rightarrow> nat
     \<Rightarrow> nat \<times> nat \<Rightarrow> rat \<Rightarrow> bool \<Rightarrow> error + ((fs \<times> rng) \<times> string)" where
  "blur_pages_of_pdf render B st input_pdf orientation tmp_folder output_folder dpi ksize
       sigma remove_artifacts =
     (let output_pdf = blurred_path input_pdf output_folder in
      case pdf_to_image render B st input_pdf tmp_folder dpi True ksize sigma of
        Inl e \<Rightarrow> Inl e
      | Inr (s1, g1) \<Rightarrow>
          (case image_to_pdf s1 tmp_folder tmp_folder orientation remove_artifacts of
             Inl e \<Rightarrow> Inl e
           | Inr s2 \<Rightarrow>
               (case merge_pdfs s2 tmp_folder output_pdf remove_artifacts of
                  Inl e \<Rightarrow> Inl e
                | Inr s3 \<Rightarrow> Inr ((s3, g1), output_pdf))))"

section \<open>Watermarking\<close>

text \<open>
  \<open>mergePage\<close> draws the other page's content after the page's own and leaves the
  page's box as it is.
\<close>

definition mergePage :: "page \<Rightarrow> page \<Rightarrow> page" where
  "mergePage p page2 = p\<lparr>contents := contents p @ contents page2\<rparr>"

definition getPage :: "pdf \<Rightarrow> nat \<Rightarrow> error + page" where
  "getPage d i = (if i < length (pages d) then Inr (pages d ! i) else Inl IndexError)"

fun watermark_pages :: "pdf \<Rightarrow> page \<Rightarrow> page list \<Rightarrow> nat list \<Rightarrow> error + page list" where
  "watermark_pages pdf_reader watermark_page pdf_writer [] = Inr pdf_writer"
| "watermark_pages pdf_reader watermark_page pdf_writer (i # rest) =
     (case getPage pdf_reader i of
        Inl e \<Rightarrow> Inl e
      | Inr p \<Rightarrow>
          watermark_pages pdf_reader watermark_page
            (pdf_writer @ [mergePage p watermark_page]) rest)"

definition watermarked_path :: "string \<Rightarrow> string \<Rightarrow> string" where
  "watermarked_path input_pdf output_folder =
     path_join output_folder (file_name input_pdf @ ''_watermarked'' @ ''.pdf'')"

definition add_watermark :: "fs \<Rightarrow> string \<Rightarrow> string \<Rightarrow> string \<Rightarrow> bool \<Rightarrow> error + (fs \<times> string)" where
  "add_watermark s input_pdf watermark output_folder remove_original =
     (let output_pdf = watermarked_path input_pdf output_folder in
      case read_pdf s watermark of
        Inl e \<Rightarrow> Inl e
      | Inr w \<Rightarrow>
      (case getPage w 0 of
        Inl e \<Rightarrow> Inl e
      | Inr watermark_page \<Rightarrow>
      (case read_pdf s input_pdf of
        Inl e \<Rightarrow> Inl e
      | Inr pdf_reader \<Rightarrow>
      (case watermark_pages pdf_reader watermark_page [] [0..<length (pages pdf_reader)] of
        Inl e \<Rightarrow> Inl e
      | Inr pdf_writer \<Rightarrow>
      (case write_file s output_pdf
              (PdfFile \<lparr>pages = pdf_writer, metadata = [], encrypted = None\<rparr>) of
        Inl e \<Rightarrow> Inl e
      | Inr s1 \<Rightarrow>
          if remove_original then
            (case os_remove s1 input_pdf of
               Inl e \<Rightarrow> Inl e
             | Inr s2 \<Rightarrow> Inr (s2, output_pdf))
          else Inr (s1, output_pdf))))))"

section \<open>Archiving the original\<close>

text \<open>\<open>rnd\<close> is what \<open>np.random.randint(0,100)\<close> returned: a number below 100.\<close>

definition archive_path :: "string \<Rightarrow> string \<Rightarrow> string" where
  "archive_path input_pdf processed_folder =
     path_join processed_folder (file_name input_pdf @ ''.pdf'')"

definition exists_path :: "nat \<Rightarrow> string \<Rightarrow> string \<Rightarrow> string" where
  "exists_path rnd input_pdf processed_folder =
     path_join processed_folder (file_name input_pdf @ (''_exists_'' @ str_nat rnd @ ''.pdf''))"

definition move_processed_pdf :: "nat \<Rightarrow> fs \<Rightarrow> string \<Rightarrow> string \<Rightarrow> error + fs" where
  "move_processed_pdf rnd s input_pdf processed_folder =
     (let new_path_to_input_pdf = archive_path input_pdf processed_folder in
      if path_exists s new_path_to_input_pdf then
        (let if_input_pdf_is_exists = exists_path rnd input_pdf processed_folder in
         os_rename s input_pdf if_input_pdf_is_exists)
      else os_rename s input_pdf new_path_to_input_pdf)"

section \<open>Small inputs to run the program on\<close>

text \<open>
  A disk with a two-page lecture and the watermark, as the driver's folders hold them,
  and the results of sealing and of watermarking the lecture.
\<close>

definition page_of :: "string \<Rightarrow> page" where
  "page_of t = \<lparr>mediabox = A4, contents = [Original t]\<rparr>"

definition lecture1 :: pdf where
  "lecture1 = \<lparr>pages = [page_of ''one'', page_of ''two''], metadata = [], encrypted = None\<rparr>"

definition watermark_A4 :: pdf where
  "watermark_A4 = \<lparr>pages = [page_of ''TAPIR''], metadata = [], encrypted = None\<rparr>"

definition disk :: fs where
  "disk = [((False, [''sample_input'', ''lecture1.pdf'']), PdfFile lecture1),
           ((False, [''watermarks'', ''landscape_A4.pdf'']), PdfFile watermark_A4)]"

definition sealed_disk :: "error + fs" where
  "sealed_disk =
     encrypt_and_add_metadata ''2020-01-10T10:00:00'' ''2020-01-10T10:00:01'' disk
       ''./sample_input/lecture1.pdf'' ''./sample_output'' [] ''your_pass'' True"

definition watermarked_disk :: "error + (fs \<times> string)" where
  "watermarked_disk =
     add_watermark disk ''./sample_input/lecture1.pdf'' ''./watermarks/landscape_A4.pdf''
       ''./sample_output'' True"

text \<open>
  A disk whose archive folder already holds a \<open>lecture1.pdf\<close> and a
  \<open>lecture1_exists_7.pdf\<close> from earlier runs.
\<close>

definition older1 :: pdf where
  "older1 = \<lparr>pages = [page_of ''last year''], metadata = [], encrypted = None\<rparr>"

definition older2 :: pdf where
  "older2 = \<lparr>pages = [page_of ''two years ago''], metadata = [], encrypted = None\<rparr>"

definition archive_disk :: fs where
  "archive_disk =
     [((False, [''sample_input'', ''lecture1.pdf'']), PdfFile lecture1),
      ((False, [''processed'', ''lecture1.pdf'']), PdfFile older1),
      ((False, [''processed'', ''lecture1_exists_7.pdf'']), PdfFile older2)]"

text \<open>
  A raster of one pixel with channels 100, 0 and 250; a generator whose next draws are
  \<open>-3.2\<close>, \<open>2.7\<close> and then 10 for ever; and the same generator three draws later.
\<close>

definition pixel :: image where
  "pixel = \<lparr>shape = [1, 1, 3], data = [100, 0, 250]\<rparr>"

definition draws :: rng where
  "draws = (\<lambda>i. if i = 0 then - 16 / 5 else if i = 1 then 27 / 10 else 10)"

definition draws_after :: rng where
  "draws_after = (\<lambda>i. draws (i + 3))"

text \<open>
  On a raster of one pixel every tap of a normalised blur kernel reads that pixel, so
  the blur returns the raster as it is.
\<close>

definition one_pixel_blur :: blur_fn where
  "one_pixel_blur img ksize sigma = Inr img"

text \<open>
  A rasterizer whose one-pixel images record the resolution they were made at, how many
  drawings the page has and the sum of the character codes of its text.
\<close>

fun text_sum :: "drawing list \<Rightarrow> nat" where
  "text_sum [] = 0"
| "text_sum (Original t # rest) = sum_list (map of_char t) + text_sum rest"
| "text_sum (DrawImage i w h # rest) = text_sum rest"

definition dpi_render :: render_fn where
  "dpi_render dpi p =
     \<lparr>shape = [1, 1, 3],
      data = [word_of_nat dpi, word_of_nat (length (contents p)), word_of_nat (text_sum (contents p))]\<rparr>"

text \<open>The lecture, and a document of ten pages, rasterized into an empty \<open>./tmp\<close>.\<close>

definition two_images :: "error + (fs \<times> rng)" where
  "two_images =
     pdf_to_image dpi_render one_pixel_blur (disk, draws) ''./sample_input/lecture1.pdf''
       ''./tmp'' 100 False (5, 5) 1"

definition ten_pages :: pdf where
  "ten_pages = \<lparr>pages = map (\<lambda>j. page_of (str_nat j)) [0..<10], metadata = [], encrypted = None\<rparr>"

definition ten_disk :: fs where
  "ten_disk = [((False, [''sample_input'', ''ten.pdf'']), PdfFile ten_pages)]"

definition ten_images :: "error + (fs \<times> rng)" where
  "ten_images =
     pdf_to_image dpi_render one_pixel_blur (ten_disk, draws) ''./sample_input/ten.pdf''
       ''./tmp'' 100 False (5, 5) 1"

text \<open>
  Two documents whose names differ after the first dot, and each stage run on the first
  and then on the second.
\<close>

definition versions_in :: fs where
  "versions_in =
     [((False, [''sample_input'', ''a.v1.pdf'']), PdfFile lecture1),
      ((False, [''sample_input'', ''a.v2.pdf'']), PdfFile older1),
      ((False, [''watermarks'', ''landscape_A4.pdf'']), PdfFile watermark_A4)]"

definition blurred_v1 :: "error + ((fs \<times> rng) \<times> string)" where
  "blurred_v1 =
     blur_pages_of_pdf dpi_render one_pixel_blur (versions_in, draws) ''./sample_input/a.v1.pdf''
       ''landscape'' ''./tmp'' ''./sample_output'' 100 (5, 5) 1 True"

definition blurred_v2 :: "error + ((fs \<times> rng) \<times> string)" where
  "blurred_v2 =
     blur_pages_of_pdf dpi_render one_pixel_blur (fst (projr blurred_v1))
       ''./sample_input/a.v2.pdf'' ''landscape'' ''./tmp'' ''./sample_output'' 100 (5, 5) 1 True"

definition watermarked_v1 :: "error + (fs \<times> string)" where
  "watermarked_v1 =
     add_watermark versions_in ''./sample_input/a.v1.pdf'' ''./watermarks/landscape_A4.pdf''
       ''./sample_output'' False"

definition watermarked_v2 :: "error + (fs \<times> string)" where
  "watermarked_v2 =
     add_watermark (fst (projr watermarked_v1)) ''./sample_input/a.v2.pdf''
       ''./watermarks/landscape_A4.pdf'' ''./sample_output'' False"

definition flattened_v1 :: "error + ((fs \<times> rng) \<times> string)" where
  "flattened_v1 =
     pdf_to_image_to_pdf dpi_render one_pixel_blur (versions_in, draws)
       ''./sample_input/a.v1.pdf'' ''./tmp'' ''./sample_output'' ''landscape'' False True"

definition sealed_v1 :: "error + fs" where
  "sealed_v1 =
     encrypt_and_add_metadata ''2020-01-10T10:00:00'' ''2020-01-10T10:00:01'' versions_in
       ''./sample_input/a.v1.pdf'' ''./sample_output'' [] ''your_pass'' True"

definition sealed_v2 :: "error + fs" where
  "sealed_v2 =
     encrypt_and_add_metadata ''2020-01-10T10:00:02'' ''2020-01-10T10:00:03'' (projr sealed_v1)
       ''./sample_input/a.v2.pdf'' ''./sample_output'' [] ''your_pass'' True"

definition archived_v1 :: "error + fs" where
  "archived_v1 = move_processed_pdf 5 versions_in ''./sample_input/a.v1.pdf'' ''./processed''"

definition archived_v2 :: "error + fs" where
  "archived_v2 =
     move_processed_pdf 5 (projr archived_v1) ''./sample_input/a.v2.pdf'' ''./processed''"

section \<open>Facts about paths\<close>

lemma split_chr_nonempty [simp]: "split_chr c s \<noteq> []"
  by (induction s) (auto simp: Let_def)

lemma hd_split_chr: "hd (split_chr c s) = takeWhile (\<lambda>x. x \<noteq> c) s"
  by (induction s) (auto simp: Let_def)

lemma split_chr_append:
  "c \<notin> set n \<Longrightarrow>
   split_chr c (a @ n) = butlast (split_chr c a) @ [last (split_chr c a) @ n]"
proof (induction a)
  case Nil
  then show ?case by (induction n) (auto simp: Let_def)
next
  case (Cons x a)
  then show ?case
    by (cases "split_chr c a") (auto simp: Let_def)
qed

lemma split_chr_snoc_sep:
  "split_chr c (a @ [c]) = split_chr c a @ [[]]"
  by (induction a) (auto simp: Let_def)

lemma split_chr_sep_name:
  "c \<notin> set n \<Longrightarrow> split_chr c (a @ c # n) = split_chr c a @ [n]"
  using split_chr_append [of c n "a @ [c]"] by (simp add: split_chr_snoc_sep)

lemma split_chr_last_sep:
  assumes "a \<noteq> []" "last a = c"
  shows "split_chr c a = split_chr c (butlast a) @ [[]]"
proof -
  have "a = butlast a @ [c]" using assms by (metis append_butlast_last_id)
  then show ?thesis using split_chr_snoc_sep [of c "butlast a"] by simp
qed

lemma normpath_step_skip [simp]: "normpath_step ab st [] = st"
  by (simp add: normpath_step_def)

lemma normpath_step_proper: "proper_name n \<Longrightarrow> normpath_step ab st n = n # st"
  by (auto simp: normpath_step_def proper_name_def)

lemma is_abs_join: "proper_name n \<Longrightarrow> is_abs (path_join d n) = is_abs d"
  by (cases d; cases n) (auto simp: is_abs_def path_join_def proper_name_def)

lemma comps_join:
  assumes "proper_name n"
  shows "foldl (normpath_step ab) [] (split_chr sep (path_join d n))
       = n # foldl (normpath_step ab) [] (split_chr sep d)"
proof -
  have ns: "sep \<notin> set n" and ne: "n \<noteq> []" using assms by (auto simp: proper_name_def)
  have hdn: "hd n \<noteq> sep" using ns ne by (cases n) auto
  show ?thesis
  proof (cases "d = []")
    case True
    then show ?thesis using ns ne hdn split_chr_append [of sep n "[]"]
      by (simp add: path_join_def normpath_step_proper [OF assms])
  next
    case False
    show ?thesis
    proof (cases "last d = sep")
      case True
      have "split_chr sep (d @ n) = split_chr sep (butlast d) @ [n]"
        using split_chr_sep_name [OF ns, of "butlast d"] False True
        by (metis append_butlast_last_id append.assoc append_Cons append_Nil)
      moreover have "split_chr sep d = split_chr sep (butlast d) @ [[]]"
        using split_chr_last_sep [OF False True] .
      ultimately show ?thesis using False True hdn ne
        by (simp add: path_join_def normpath_step_proper [OF assms])
    next
      case l: False
      have "split_chr sep (d @ sep # n) = split_chr sep d @ [n]"
        using split_chr_sep_name [OF ns] .
      then show ?thesis using False l hdn ne
        by (simp add: path_join_def normpath_step_proper [OF assms])
    qed
  qed
qed

lemma locate_join:
  "proper_name n \<Longrightarrow> locate (path_join d n) = (fst (locate d), snd (locate d) @ [n])"
  by (simp add: locate_def is_abs_join comps_join)

lemma last_split_join:
  assumes "proper_name n"
  shows "last (split_chr sep (path_join d n)) = n"
proof -
  have ns: "sep \<notin> set n" and ne: "n \<noteq> []" using assms by (auto simp: proper_name_def)
  have hdn: "hd n \<noteq> sep" using ns ne by (cases n) auto
  have a: "\<And>a. last (split_chr sep (a @ sep # n)) = n"
    using split_chr_sep_name [OF ns] by simp
  show ?thesis
  proof (cases "d = [] \<or> last d = sep")
    case True
    then show ?thesis
    proof
      assume "d = []" then show ?thesis
        using ns ne hdn split_chr_append [of sep n "[]"] by (simp add: path_join_def)
    next
      assume l: "last d = sep"
      show ?thesis
      proof (cases "d = []")
        case True then show ?thesis
          using ns ne hdn split_chr_append [of sep n "[]"] by (simp add: path_join_def)
      next
        case False
        then obtain d' where d: "d = d' @ [sep]" using l
          by (metis append_butlast_last_id)
        have "path_join d n = d' @ sep # n" using hdn ne by (simp add: path_join_def d)
        then show ?thesis using a [of d'] by simp
      qed
    qed
  next
    case False
    then show ?thesis using a [of d] hdn ne by (simp add: path_join_def)
  qed
qed

lemma is_file_path_join: "proper_name n \<Longrightarrow> is_file_path (path_join d n)"
  by (simp add: is_file_path_def last_split_join)

lemma last_locate:
  assumes "is_file_path p"
  shows "snd (locate p) \<noteq> [] \<and> last (snd (locate p)) = last (split_chr sep p)"
proof -
  let ?l = "last (split_chr sep p)"
  have "split_chr sep p = butlast (split_chr sep p) @ [?l]" by simp
  then have "foldl (normpath_step (is_abs p)) [] (split_chr sep p)
      = normpath_step (is_abs p) (foldl (normpath_step (is_abs p)) [] (butlast (split_chr sep p))) ?l"
    by (metis foldl_append foldl_Cons foldl_Nil)
  then show ?thesis using assms
    by (simp add: locate_def is_file_path_def normpath_step_proper)
qed

lemma file_name_takeWhile:
  "file_name p = takeWhile (\<lambda>x. x \<noteq> CHR ''.'') (last (split_chr sep p))"
  by (simp add: file_name_def hd_split_chr)

lemma split_chr_no_sep: "x \<in> set (split_chr c s) \<Longrightarrow> c \<notin> set x"
proof (induction s arbitrary: x)
  case Nil then show ?case by simp
next
  case (Cons a s)
  then show ?case
    by (cases "split_chr c s") (auto simp: Let_def split: if_splits)
qed

lemma file_name_no_sep: "sep \<notin> set (file_name p)"
proof -
  have "last (split_chr sep p) \<in> set (split_chr sep p)" by simp
  then have "sep \<notin> set (last (split_chr sep p))" by (rule split_chr_no_sep)
  then show ?thesis unfolding file_name_takeWhile by (meson set_takeWhileD)
qed

lemma file_name_no_dot: "CHR ''.'' \<notin> set (file_name p)"
  unfolding file_name_takeWhile by (auto dest: set_takeWhileD)

lemma proper_stage_name:
  assumes "sfx \<noteq> []" "sep \<notin> set sfx" "CHR ''.'' \<notin> set sfx"
  shows "proper_name (file_name p @ sfx @ ''.pdf'')"
  using assms file_name_no_sep [of p]
  by (cases sfx) (auto simp: proper_name_def sep_def append_eq_Cons_conv Cons_eq_append_conv)

lemma proper_pdf_name: "proper_name (file_name p @ ''.pdf'')"
  using file_name_no_sep [of p] file_name_no_dot [of p]
  by (auto simp: proper_name_def sep_def append_eq_Cons_conv Cons_eq_append_conv)

lemma stage_name_differs:
  assumes "sfx \<noteq> []" "CHR ''.'' \<notin> set sfx"
  shows "file_name p @ sfx @ ''.pdf'' \<noteq> last (split_chr sep p)"
proof
  assume e: "file_name p @ sfx @ ''.pdf'' = last (split_chr sep p)"
  have "takeWhile (\<lambda>x. x \<noteq> CHR ''.'') ((file_name p @ sfx) @ ''.pdf'') = file_name p @ sfx"
    using assms file_name_no_dot [of p] by (subst takeWhile_append2) auto
  then have "file_name p = file_name p @ sfx"
    using e file_name_takeWhile [of p] by simp
  then show False using assms by simp
qed

lemma stage_output_not_input:
  assumes f: "is_file_path p" and s: "sfx \<noteq> []" "sep \<notin> set sfx" "CHR ''.'' \<notin> set sfx"
  shows "locate (path_join d (file_name p @ sfx @ ''.pdf'')) \<noteq> locate p"
proof
  let ?n = "file_name p @ sfx @ ''.pdf''"
  assume e: "locate (path_join d ?n) = locate p"
  have "last (snd (locate (path_join d ?n))) = ?n"
    by (simp add: locate_join [OF proper_stage_name [OF s]])
  then have "?n = last (split_chr sep p)" using e last_locate [OF f] by simp
  then show False using stage_name_differs [OF s(1) s(3)] by blast
qed

section \<open>Facts about the file system\<close>

lemma map_of_update_same: "map_of (AList.update k v al) k = Some v"
  by (simp add: update_conv')

lemma map_of_delete_other: "k \<noteq> k' \<Longrightarrow> map_of (AList.delete k' al) k = map_of al k"
  by (simp add: delete_conv')

lemma read_pdf_is_file: "read_pdf s p = Inr d \<Longrightarrow> is_file_path p"
  by (auto simp: read_pdf_def read_file_def split: if_splits)

section \<open>Sealing\<close>

text \<open>
  Whenever sealing returns, the file at the \<open>_final\<close> path is the input document with
  the metadata added and the encryption record set; removing the original cannot remove
  it, since the two paths end in different names.
\<close>

lemma encrypt_output:
  assumes "encrypt_and_add_metadata t1 t2 s input_pdf output_folder usr_pass owner_pass r = Inr s'"
  shows "\<exists>d. read_pdf s input_pdf = Inr d \<and>
    read_file s' (final_path input_pdf output_folder) =
      Inr (PdfFile (d\<lparr>metadata := add_metadata t1 t2 (metadata d),
                       encrypted := Some (saved_encryption
                         (pikepdf_Encryption usr_pass owner_pass seal_permissions))\<rparr>))"
proof -
  let ?out = "final_path input_pdf output_folder"
  obtain d where d: "read_pdf s input_pdf = Inr d"
    using assms by (auto simp: encrypt_and_add_metadata_def Let_def split: sum.splits)
  have f: "is_file_path input_pdf" using d by (rule read_pdf_is_file)
  have o: "is_file_path ?out"
    unfolding final_path_def by (rule is_file_path_join, rule proper_stage_name) (auto simp: sep_def)
  have ne: "locate ?out \<noteq> locate input_pdf"
    unfolding final_path_def by (rule stage_output_not_input [OF f]) (auto simp: sep_def)
  let ?f = "PdfFile (d\<lparr>metadata := add_metadata t1 t2 (metadata d),
                       encrypted := Some (saved_encryption
                         (pikepdf_Encryption usr_pass owner_pass seal_permissions))\<rparr>)"
  have "s' = AList.update (locate ?out) ?f s \<or>
        s' = AList.delete (locate input_pdf) (AList.update (locate ?out) ?f s)"
    using assms d o
    by (auto simp: encrypt_and_add_metadata_def Let_def write_file_def os_remove_def
             split: sum.splits if_splits option.splits)
  then have "map_of s' (locate ?out) = Some ?f"
    using ne by (auto simp: map_of_update_same map_of_delete_other)
  then show ?thesis using d o by (simp add: read_file_def)
qed

lemma sealed_disk_runs: "\<not> isl sealed_disk"
  unfolding sealed_disk_def by code_simp

text \<open>
  C1. Whatever the input document, the passwords and the deletion flag, a sealing that
  returns leaves at the \<open>_final\<close> path an encrypted document whose permission set allows
  low-resolution and high-resolution printing and denies extraction, annotation,
  assembly, form filling and other modification.
\<close>

theorem sealed_permissions:
  assumes "encrypt_and_add_metadata t1 t2 s input_pdf output_folder usr_pass owner_pass r = Inr s'"
  shows "\<exists>d e. read_file s' (final_path input_pdf output_folder) = Inr (PdfFile d)
           \<and> encrypted d = Some e
           \<and> print_lowres (allow e) \<and> print_highres (allow e)
           \<and> \<not> extract_perm (allow e) \<and> \<not> modify_annotation (allow e)
           \<and> \<not> modify_assembly (allow e) \<and> \<not> modify_form (allow e)
           \<and> \<not> modify_other (allow e)"
  using encrypt_output [OF assms]
  by (auto simp: seal_permissions_def saved_encryption_def pikepdf_Encryption_def)

theorem sealed_permissions_witness:
  "\<not> isl sealed_disk \<and>
   (\<exists>d e. read_file (projr sealed_disk)
              (final_path ''./sample_input/lecture1.pdf'' ''./sample_output'')
              = Inr (PdfFile d)
           \<and> encrypted d = Some e
           \<and> print_lowres (allow e) \<and> print_highres (allow e)
           \<and> \<not> extract_perm (allow e) \<and> \<not> modify_annotation (allow e)
           \<and> \<not> modify_assembly (allow e) \<and> \<not> modify_form (allow e)
           \<and> \<not> modify_other (allow e))"
proof -
  have r: "\<not> isl sealed_disk" by (rule sealed_disk_runs)
  then have "sealed_disk = Inr (projr sealed_disk)" by simp
  then show ?thesis
    using r sealed_permissions [of "''2020-01-10T10:00:00''" "''2020-01-10T10:00:01''" disk
      "''./sample_input/lecture1.pdf''" "''./sample_output''" "[]" "''your_pass''" True
      "projr sealed_disk"]
    unfolding sealed_disk_def by blast
qed

text \<open>
  C10, as the program behaves. The program asks for accessibility to be denied, but it
  saves with the library's default revision 6, for which the accessibility bit stays
  set: whatever the input, the sealed document allows accessibility.
\<close>

theorem sealed_allows_accessibility:
  assumes "encrypt_and_add_metadata t1 t2 s input_pdf output_folder usr_pass owner_pass r = Inr s'"
  shows "accessibility seal_permissions = False
       \<and> (\<exists>d e. read_file s' (final_path input_pdf output_folder) = Inr (PdfFile d)
              \<and> encrypted d = Some e \<and> revision e = 6 \<and> accessibility (allow e) = True)"
  using encrypt_output [OF assms]
  by (auto simp: seal_permissions_def saved_encryption_def pikepdf_Encryption_def)

theorem sealed_allows_accessibility_witness:
  "\<not> isl sealed_disk \<and> accessibility seal_permissions = False \<and>
   (\<exists>d e. read_file (projr sealed_disk)
              (final_path ''./sample_input/lecture1.pdf'' ''./sample_output'')
              = Inr (PdfFile d)
           \<and> encrypted d = Some e \<and> revision e = 6 \<and> accessibility (allow e) = True)"
proof -
  have r: "\<not> isl sealed_disk" by (rule sealed_disk_runs)
  then have "sealed_disk = Inr (projr sealed_disk)" by simp
  then show ?thesis
    using r sealed_allows_accessibility [of "''2020-01-10T10:00:00''" "''2020-01-10T10:00:01''"
      disk "''./sample_input/lecture1.pdf''" "''./sample_output''" "[]" "''your_pass''" True
      "projr sealed_disk"]
    unfolding sealed_disk_def by blast
qed

text \<open>C10 as stated fails: the sealed lecture allows accessibility.\<close>

theorem sealed_lecture_allows_accessibility:
  "\<not> isl sealed_disk \<and>
   map_sum id encrypted (read_pdf (projr sealed_disk) ''./sample_output/lecture1_final.pdf'') =
     Inr (Some \<lparr>user = [], owner = ''your_pass'', revision = 6,
                allow = \<lparr>accessibility = True, extract_perm = False,
                          modify_annotation = False, modify_assembly = False,
                          modify_form = False, modify_other = False,
                          print_lowres = True, print_highres = True\<rparr>\<rparr>)"
proof -
  have a: "\<not> isl sealed_disk" by (rule sealed_disk_runs)
  have b: "map_sum id encrypted
      (read_pdf (projr sealed_disk) ''./sample_output/lecture1_final.pdf'') =
     Inr (Some \<lparr>user = [], owner = ''your_pass'', revision = 6,
                allow = \<lparr>accessibility = True, extract_perm = False,
                          modify_annotation = False, modify_assembly = False,
                          modify_form = False, modify_other = False,
                          print_lowres = True, print_highres = True\<rparr>\<rparr>)"
    unfolding sealed_disk_def by code_simp
  show ?thesis using a b by simp
qed

section \<open>Watermarking\<close>

lemma watermark_pages_all:
  "\<forall>i \<in> set js. i < length (pages d) \<Longrightarrow>
   watermark_pages d w acc js = Inr (acc @ map (\<lambda>i. mergePage (pages d ! i) w) js)"
  by (induction js arbitrary: acc) (auto simp: getPage_def)

lemma watermark_pages_upt:
  "watermark_pages d w [] [0..<length (pages d)] = Inr (map (\<lambda>p. mergePage p w) (pages d))"
proof -
  have "map (\<lambda>i. mergePage (pages d ! i) w) [0..<length (pages d)]
      = map (\<lambda>p. mergePage p w) (map (\<lambda>i. pages d ! i) [0..<length (pages d)])"
    by (simp add: comp_def)
  then show ?thesis using watermark_pages_all [of "[0..<length (pages d)]" d w "[]"]
    by (simp add: map_nth)
qed

lemma add_watermark_output:
  assumes "add_watermark s input_pdf watermark output_folder r = Inr (s', out)"
  shows "\<exists>d w. read_pdf s input_pdf = Inr d \<and> read_pdf s watermark = Inr w \<and> pages w \<noteq> []
           \<and> out = watermarked_path input_pdf output_folder
           \<and> read_pdf s' out =
               Inr \<lparr>pages = map (\<lambda>p. mergePage p (hd (pages w))) (pages d),
                    metadata = [], encrypted = None\<rparr>"
proof -
  let ?out = "watermarked_path input_pdf output_folder"
  obtain w where w: "read_pdf s watermark = Inr w"
    using assms by (auto simp: add_watermark_def Let_def split: sum.splits)
  obtain wp where wp: "getPage w 0 = Inr wp"
    using assms w by (auto simp: add_watermark_def Let_def split: sum.splits)
  have wne: "pages w \<noteq> []" and wp': "wp = hd (pages w)"
    using wp by (auto simp: getPage_def hd_conv_nth split: if_splits)
  obtain d where d: "read_pdf s input_pdf = Inr d"
    using assms w wp by (auto simp: add_watermark_def Let_def split: sum.splits)
  have f: "is_file_path input_pdf" using d by (rule read_pdf_is_file)
  have o: "is_file_path ?out"
    unfolding watermarked_path_def
    by (rule is_file_path_join, rule proper_stage_name) (auto simp: sep_def)
  have ne: "locate ?out \<noteq> locate input_pdf"
    unfolding watermarked_path_def by (rule stage_output_not_input [OF f]) (auto simp: sep_def)
  let ?f = "PdfFile \<lparr>pages = map (\<lambda>p. mergePage p wp) (pages d), metadata = [], encrypted = None\<rparr>"
  have "out = ?out \<and> (s' = AList.update (locate ?out) ?f s \<or>
        s' = AList.delete (locate input_pdf) (AList.update (locate ?out) ?f s))"
    using assms w wp d o
    by (auto simp: add_watermark_def Let_def write_file_def os_remove_def watermark_pages_upt
             split: sum.splits if_splits option.splits)
  then have "out = ?out" and "map_of s' (locate ?out) = Some ?f"
    using ne by (auto simp: map_of_update_same map_of_delete_other)
  then show ?thesis using d w wne wp' o by (simp add: read_pdf_def read_file_def)
qed

text \<open>
  C6. Whenever the watermark compositor returns, the document at the returned path has
  as many pages as the input document, in the input's order, and each page is the input
  page with its own box and its own content followed by the content of the watermark's
  first page.
\<close>

theorem watermark_every_page:
  assumes "add_watermark s input_pdf watermark output_folder r = Inr (s', out)"
  shows "\<exists>d w d'. read_pdf s input_pdf = Inr d \<and> read_pdf s watermark = Inr w
           \<and> read_pdf s' out = Inr d'
           \<and> length (pages d') = length (pages d)
           \<and> pages d' = map (\<lambda>p. \<lparr>mediabox = mediabox p,
                                      contents = contents p @ contents (pages w ! 0)\<rparr>) (pages d)"
proof -
  obtain d w where h: "read_pdf s input_pdf = Inr d" "read_pdf s watermark = Inr w" "pages w \<noteq> []"
      "read_pdf s' out = Inr \<lparr>pages = map (\<lambda>p. mergePage p (hd (pages w))) (pages d),
                    metadata = [], encrypted = None\<rparr>"
    using add_watermark_output [OF assms] by blast
  have "\<And>p. mergePage p (hd (pages w))
      = \<lparr>mediabox = mediabox p, contents = contents p @ contents (pages w ! 0)\<rparr>"
    using h(3) by (simp add: mergePage_def hd_conv_nth)
  then show ?thesis using h by auto
qed

theorem watermark_every_page_witness:
  "\<not> isl watermarked_disk \<and>
   (\<exists>d w d'. read_pdf disk ''./sample_input/lecture1.pdf'' = Inr d
           \<and> read_pdf disk ''./watermarks/landscape_A4.pdf'' = Inr w
           \<and> read_pdf (fst (projr watermarked_disk)) (snd (projr watermarked_disk)) = Inr d'
           \<and> length (pages d') = length (pages d)
           \<and> pages d' = map (\<lambda>p. \<lparr>mediabox = mediabox p,
                                      contents = contents p @ contents (pages w ! 0)\<rparr>) (pages d))"
proof -
  have r: "\<not> isl watermarked_disk" unfolding watermarked_disk_def by code_simp
  then have "watermarked_disk = Inr (fst (projr watermarked_disk), snd (projr watermarked_disk))"
    by simp
  then show ?thesis
    using r watermark_every_page [of disk "''./sample_input/lecture1.pdf''"
      "''./watermarks/landscape_A4.pdf''" "''./sample_output''" True
      "fst (projr watermarked_disk)" "snd (projr watermarked_disk)"]
    unfolding watermarked_disk_def by blast
qed

section \<open>Merging\<close>

text \<open>
  C3, as the program behaves. With nothing to merge, the merger signals no error: it
  writes a document of zero pages at the output path and returns.
\<close>

theorem merge_of_nothing:
  assumes "glob_star s input_folder ''.pdf'' = []" and "is_file_path path_to_output_pdf"
  shows "\<exists>s'. merge_pdfs s input_folder path_to_output_pdf r = Inr s'
           \<and> read_pdf s' path_to_output_pdf = Inr \<lparr>pages = [], metadata = [], encrypted = None\<rparr>"
  using assms
  by (simp add: merge_pdfs_def write_file_def read_pdf_def read_file_def map_of_update_same)

theorem merge_of_nothing_witness:
  "glob_star disk ''./tmp'' ''.pdf'' = [] \<and> is_file_path ''./sample_output/lecture1_blurred.pdf''
   \<and> (\<exists>s'. merge_pdfs disk ''./tmp'' ''./sample_output/lecture1_blurred.pdf'' True = Inr s'
           \<and> read_pdf s' ''./sample_output/lecture1_blurred.pdf''
                = Inr \<lparr>pages = [], metadata = [], encrypted = None\<rparr>)"
proof -
  have a: "glob_star disk ''./tmp'' ''.pdf'' = []" by code_simp
  have b: "is_file_path ''./sample_output/lecture1_blurred.pdf''" by code_simp
  show ?thesis using a b merge_of_nothing [OF a b, of True] by blast
qed

theorem merge_of_nothing_counterexample:
  "glob_star disk ''./tmp'' ''.pdf'' = [] \<and>
   merge_pdfs disk ''./tmp'' ''./sample_output/lecture1_blurred.pdf'' True =
     Inr (disk @ [((False, [''sample_output'', ''lecture1_blurred.pdf'']),
                   PdfFile \<lparr>pages = [], metadata = [], encrypted = None\<rparr>)])"
  by code_simp

section \<open>Archiving\<close>

text \<open>
  C2 fails on the program when the suffixed name is taken as well: the rename replaces
  the file that was there, and the move returns without an error.
\<close>

theorem move_replaces_suffixed_file:
  "read_pdf archive_disk ''./processed/lecture1_exists_7.pdf'' = Inr older2 \<and>
   move_processed_pdf 7 archive_disk ''./sample_input/lecture1.pdf'' ''./processed'' =
     Inr [((False, [''processed'', ''lecture1.pdf'']), PdfFile older1),
          ((False, [''processed'', ''lecture1_exists_7.pdf'']), PdfFile lecture1)]"
  by code_simp

section \<open>Noise\<close>

lemma unat_saturate_add: "unat (saturate_add a b) = min 255 (unat a + unat b)"
  by (auto simp: saturate_add_def unat_word_ariths)

lemma saturate_add_not_below: "unat a \<le> unat (saturate_add a b)"
proof -
  have "unat a \<le> 255" using unsigned_less [of a, where 'a = nat] by simp
  then show ?thesis by (simp add: unat_saturate_add)
qed

text \<open>
  Whatever byte a draw is cast to, the sum is never below the pixel: a negative draw is
  never subtracted.
\<close>

lemma add_gauss_not_below:
  assumes "add_gauss g img sigma = Inr (out, g')" and "i < length (data out)"
  shows "unat (data img ! i) \<le> unat (data out ! i)"
proof -
  obtain noise where "data out = map2 saturate_add (data img) noise"
    using assms(1)
    by (auto simp: add_gauss_def cv2_add_def split: sum.splits if_splits)
  then show ?thesis using assms(2) by (simp add: saturate_add_not_below)
qed

text \<open>
  C5 fails on the program: a draw of \<open>-3.2\<close> on a channel of 100 gives 255, not 97. The
  draw is cast to the byte 253 before the saturating sum.
\<close>

theorem negative_draw_whitens:
  "map_sum id fst (add_gauss draws pixel 1) = Inr \<lparr>shape = [1, 1, 3], data = [255, 2, 255]\<rparr>"
  by code_simp

section \<open>The blur filter\<close>

lemma add_gauss_effect:
  assumes "add_gauss g img sigma = Inr (out, g')"
  shows "shape out = shape img \<and> g' = (\<lambda>i. g (i + size_of img))"
  using assms
  by (auto simp: add_gauss_def cv2_add_def reshape3_def random_normal_def
           split: sum.splits if_splits)

text \<open>
  C7, as the program behaves. The filter touches no file and, when the blur primitive
  keeps the shape of what it is given, returns a raster of the shape of its input; but
  it takes as many draws from numpy's global generator as the raster has elements, and
  leaves the generator advanced by that many.
\<close>

theorem blur_image_effect:
  assumes "blur_image B g img ksize sigma = Inr (out, g')"
    and "\<And>a b. B a ksize sigma = Inr b \<Longrightarrow> shape b = shape a"
  shows "shape out = shape img \<and> g' = (\<lambda>i. g (i + size_of img))"
proof -
  obtain mid where m: "add_gauss g img sigma = Inr (mid, g')" and b: "B mid ksize sigma = Inr out"
    using assms(1) by (auto simp: blur_image_def split: sum.splits)
  show ?thesis using add_gauss_effect [OF m] assms(2) [OF b] by simp
qed

lemma add_gauss_draws:
  "add_gauss draws pixel 1 = Inr (\<lparr>shape = [1, 1, 3], data = [255, 2, 255]\<rparr>, draws_after)"
proof -
  have sz: "size_of pixel = 3" by (simp add: size_of_def pixel_def)
  have v: "map_sum id fst (add_gauss draws pixel 1)
      = Inr \<lparr>shape = [1, 1, 3], data = [255, 2, 255]\<rparr>"
    by code_simp
  then obtain out g' where e: "add_gauss draws pixel 1 = Inr (out, g')"
    by (cases "add_gauss draws pixel 1") auto
  have "g' = draws_after" using add_gauss_effect [OF e] by (simp add: sz draws_after_def)
  moreover have "out = \<lparr>shape = [1, 1, 3], data = [255, 2, 255]\<rparr>" using v e by simp
  ultimately show ?thesis using e by simp
qed

theorem blur_image_effect_witness:
  "blur_image one_pixel_blur draws pixel (5, 5) 1
     = Inr (\<lparr>shape = [1, 1, 3], data = [255, 2, 255]\<rparr>, draws_after)
   \<and> shape \<lparr>shape = [1, 1, 3], data = [255, 2, 255 :: 8 word]\<rparr> = shape pixel
   \<and> draws_after = (\<lambda>i. draws (i + size_of pixel))"
proof -
  have r: "blur_image one_pixel_blur draws pixel (5, 5) 1
     = Inr (\<lparr>shape = [1, 1, 3], data = [255, 2, 255]\<rparr>, draws_after)"
    by (simp add: blur_image_def add_gauss_draws one_pixel_blur_def)
  have k: "\<And>a b. one_pixel_blur a (5, 5) 1 = Inr b \<Longrightarrow> shape b = shape a"
    by (simp add: one_pixel_blur_def)
  show ?thesis using r blur_image_effect [OF r k] by simp
qed

text \<open>
  C7 as stated fails: a run leaves the generator in another state, and a second run on
  the same raster, started where the first one ended, returns another raster.
\<close>

theorem blur_image_not_pure:
  "map_sum id snd (blur_image one_pixel_blur draws pixel (5, 5) 1) = Inr draws_after
   \<and> draws_after \<noteq> draws
   \<and> map_sum id fst (blur_image one_pixel_blur draws pixel (5, 5) 1)
       \<noteq> map_sum id fst (blur_image one_pixel_blur draws_after pixel (5, 5) 1)"
proof -
  have n2: "map_sum id fst (add_gauss draws_after pixel 1)
      = Inr \<lparr>shape = [1, 1, 3], data = [110, 10, 255]\<rparr>"
    by code_simp
  have d: "draws_after 0 \<noteq> draws 0" by (simp add: draws_after_def draws_def)
  have "draws_after \<noteq> draws" using d by metis
  moreover have "map_sum id fst (blur_image one_pixel_blur draws_after pixel (5, 5) 1)
      = Inr \<lparr>shape = [1, 1, 3], data = [110, 10, 255]\<rparr>"
    using n2 by (auto simp: blur_image_def one_pixel_blur_def split: sum.splits)
  ultimately show ?thesis by (simp add: blur_image_def add_gauss_draws one_pixel_blur_def)
qed

section \<open>Facts about page image names\<close>

lemma of_char_digit_chr: "d < 10 \<Longrightarrow> of_char (digit_chr d) = 48 + d"
  by (simp add: digit_chr_def)

lemma nat_of_str_str_nat: "nat_of_str (str_nat n) = n"
proof (induction n rule: str_nat.induct)
  case (1 n)
  show ?case
  proof (cases "n < 10")
    case True
    then show ?thesis
      by (subst str_nat.simps) (simp add: nat_of_str_def of_char_digit_chr)
  next
    case False
    then have "nat_of_str (str_nat (n div 10)) = n div 10" using 1 by simp
    then show ?thesis using False
      by (subst str_nat.simps) (simp add: nat_of_str_def of_char_digit_chr)
  qed
qed

lemma str_nat_inj: "str_nat i = str_nat j \<Longrightarrow> i = j"
  by (metis nat_of_str_str_nat)

lemma digit_chr_not_special:
  "d < 10 \<Longrightarrow> digit_chr d \<noteq> sep \<and> digit_chr d \<noteq> CHR ''.''"
proof -
  assume d: "d < 10"
  have "of_char (digit_chr d) \<noteq> (of_char sep :: nat)"
    using d by (simp add: of_char_digit_chr sep_def)
  moreover have "of_char (digit_chr d) \<noteq> (of_char (CHR ''.'') :: nat)"
    using d by (simp add: of_char_digit_chr)
  ultimately show ?thesis by auto
qed

lemma str_nat_chars: "c \<in> set (str_nat n) \<Longrightarrow> c \<noteq> sep \<and> c \<noteq> CHR ''.''"
proof (induction n rule: str_nat.induct)
  case (1 n)
  show ?case
  proof (cases "n < 10")
    case True
    then show ?thesis using 1(2) digit_chr_not_special [of n]
      by (subst (asm) str_nat.simps) simp
  next
    case False
    then show ?thesis using 1 digit_chr_not_special [of "n mod 10"]
      by (subst (asm) (2) str_nat.simps) auto
  qed
qed

lemma png_name_inj: "png_name i = png_name j \<Longrightarrow> i = j"
  by (simp add: png_name_def str_nat_inj)

lemma proper_png_name: "proper_name (png_name j)"
  using str_nat_chars [of sep j] by (auto simp: proper_name_def png_name_def sep_def)

lemma fnmatch_png_name: "fnmatch_star ''.png'' (png_name j)"
proof -
  have "png_name j = (''_'' @ str_nat j) @ ''.png''" by (simp add: png_name_def)
  then have "drop (length (png_name j) - length ''.png'') (png_name j) = ''.png''"
    by (metis add_diff_cancel_right' append_eq_conv_conj length_append)
  then show ?thesis by (simp add: fnmatch_star_def) (simp add: png_name_def)
qed

lemma split_chr_dot_slash:
  "split_chr sep (CHR ''.'' # sep # x) = ''.'' # split_chr sep x"
  by (simp add: sep_def)

lemma locate_dot_join: "locate (path_join ''.'' x) = locate x"
proof (cases "x \<noteq> [] \<and> hd x = sep")
  case True
  then show ?thesis by (simp add: path_join_def)
next
  case False
  then have j: "path_join ''.'' x = CHR ''.'' # sep # x"
    by (auto simp: path_join_def sep_def)
  have "is_abs x = False" using False by (auto simp: is_abs_def)
  moreover have "is_abs (CHR ''.'' # sep # x) = False" by (simp add: is_abs_def sep_def)
  ultimately show ?thesis unfolding locate_def j split_chr_dot_slash
    by (simp add: normpath_step_def)
qed

lemma is_file_path_dot_join: "is_file_path (path_join ''.'' x) = is_file_path x"
proof (cases "x \<noteq> [] \<and> hd x = sep")
  case True
  then show ?thesis by (simp add: path_join_def)
next
  case False
  then have j: "path_join ''.'' x = CHR ''.'' # sep # x"
    by (auto simp: path_join_def sep_def)
  show ?thesis unfolding is_file_path_def j split_chr_dot_slash by simp
qed

text \<open>The path of a name under a folder is the name after a prefix the folder fixes.\<close>

lemma path_join_prefix:
  "\<exists>pre. \<forall>n. proper_name n \<longrightarrow> path_join folder n = pre @ n"
proof -
  have h: "\<And>n. proper_name n \<Longrightarrow> \<not> (n \<noteq> [] \<and> hd n = sep)"
    by (case_tac n) (auto simp: proper_name_def)
  show ?thesis
  proof (cases "folder = [] \<or> last folder = sep")
    case True
    then have "\<forall>n. proper_name n \<longrightarrow> path_join folder n = folder @ n"
      using h by (auto simp: path_join_def)
    then show ?thesis by blast
  next
    case False
    then have "\<forall>n. proper_name n \<longrightarrow> path_join folder n = (folder @ [sep]) @ n"
      using h by (auto simp: path_join_def)
    then show ?thesis by blast
  qed
qed

lemma prefix_less: "(pre @ a < pre @ b) = (a < (b :: string))"
  by (induction pre) auto

lemma prefix_le: "(pre @ a \<le> pre @ b) = (a \<le> (b :: string))"
  by (induction pre) auto

lemma digit_chr_less: "i < j \<Longrightarrow> j < 10 \<Longrightarrow> digit_chr i < digit_chr j"
  by (simp add: less_char_def of_char_digit_chr)

lemma png_name_mono: "i \<le> j \<Longrightarrow> j < 10 \<Longrightarrow> png_name i \<le> png_name j"
proof (cases "i = j")
  case True then show ?thesis by simp
next
  case False
  assume "i \<le> j" "j < 10"
  then have l: "i < j" "i < 10" "j < 10" using False by auto
  have "str_nat i = [digit_chr i]" "str_nat j = [digit_chr j]"
    using l by (simp_all add: str_nat.simps)
  then show ?thesis using digit_chr_less [OF l(1) l(3)]
    by (simp add: png_name_def)
qed

lemma png_name_10_2: "png_name 10 < png_name 2"
  by code_simp

lemma page_order_sorted:
  "sorted (map (\<lambda>j. pre @ png_name j) [0..<n]) = (n \<le> 10)"
proof
  assume s: "sorted (map (\<lambda>j. pre @ png_name j) [0..<n])"
  show "n \<le> 10"
  proof (rule ccontr)
    assume "\<not> n \<le> 10"
    then have n: "10 < n" by simp
    have "map (\<lambda>j. pre @ png_name j) [0..<n] ! 2 \<le> map (\<lambda>j. pre @ png_name j) [0..<n] ! 10"
      using s n by (intro sorted_nth_mono) auto
    then have "png_name (Suc (Suc 0)) \<le> png_name 10" using n by (simp add: prefix_le)
    then have "png_name 2 \<le> png_name 10" by (simp add: numeral_2_eq_2)
    then show False using png_name_10_2 by simp
  qed
next
  assume n: "n \<le> 10"
  show "sorted (map (\<lambda>j. pre @ png_name j) [0..<n])"
    unfolding sorted_iff_nth_mono using n by (auto simp: prefix_le intro: png_name_mono)
qed

section \<open>Facts about listings\<close>

lemma in_folder_loc:
  assumes "fst l = fst d" "snd l \<noteq> []" "butlast (snd l) = snd d"
  shows "l = (fst d, snd d @ [last (snd l)])"
proof -
  have "snd l = snd d @ [last (snd l)]" using assms(2,3) by (metis append_butlast_last_id)
  then show ?thesis using assms(1) by (metis prod.collapse)
qed

lemma listdir_set:
  "set (listdir s folder) =
     {n. map_of s (fst (locate folder), snd (locate folder) @ [n]) \<noteq> None}"
proof -
  let ?d = "locate folder"
  have "set (listdir s folder) = {n. \<exists>f. ((fst ?d, snd ?d @ [n]), f) \<in> set s}"
  proof (rule set_eqI, rule iffI)
    fix n assume "n \<in> set (listdir s folder)"
    then obtain l f where lf: "(l, f) \<in> set s" "fst l = fst ?d" "snd l \<noteq> []"
        "butlast (snd l) = snd ?d" "n = last (snd l)"
      by (auto simp: listdir_def)
    have "l = (fst ?d, snd ?d @ [n])"
      using in_folder_loc [OF lf(2) lf(3) lf(4)] lf(5) by simp
    then show "n \<in> {n. \<exists>f. ((fst ?d, snd ?d @ [n]), f) \<in> set s}" using lf(1) by auto
  next
    fix n assume "n \<in> {n. \<exists>f. ((fst ?d, snd ?d @ [n]), f) \<in> set s}"
    then obtain v where m: "((fst ?d, snd ?d @ [n]), v) \<in> set s" by auto
    have "n = (case ((fst ?d, snd ?d @ [n]), v) of (l, f) \<Rightarrow> last (snd l))" by simp
    moreover have "((fst ?d, snd ?d @ [n]), v) \<in> set (filter
        (\<lambda>(l, f). fst l = fst ?d \<and> snd l \<noteq> [] \<and> butlast (snd l) = snd ?d) s)"
      using m by simp
    ultimately have "n \<in> (\<lambda>(l, f). last (snd l)) ` set (filter
        (\<lambda>(l, f). fst l = fst ?d \<and> snd l \<noteq> [] \<and> butlast (snd l) = snd ?d) s)"
      by (rule image_eqI)
    then show "n \<in> set (listdir s folder)" unfolding listdir_def set_map .
  qed
  also have "\<dots> = {n. map_of s (fst ?d, snd ?d @ [n]) \<noteq> None}"
  proof -
    have "(\<exists>v. (l, v) \<in> set s) = (map_of s l \<noteq> None)" for l
    proof -
      have "(map_of s l = None) = (l \<notin> fst ` set s)" by (rule map_of_eq_None_iff)
      moreover have "(l \<in> fst ` set s) = (\<exists>v. (l, v) \<in> set s)" by force
      ultimately show ?thesis by simp
    qed
    then show ?thesis by simp
  qed
  finally show ?thesis .
qed

lemma listdir_distinct:
  assumes "distinct (map fst s)"
  shows "distinct (listdir s folder)"
proof -
  let ?d = "locate folder"
  let ?P = "\<lambda>(l, f). fst l = fst ?d \<and> snd l \<noteq> [] \<and> butlast (snd l) = snd ?d"
  have ds: "distinct s" using assms by (rule distinct_map [THEN iffD1, THEN conjunct1])
  have "inj_on (\<lambda>(l, f). last (snd l)) (set (filter ?P s))"
  proof (rule inj_onI)
    fix x y assume x: "x \<in> set (filter ?P s)" and y: "y \<in> set (filter ?P s)"
      and e: "(\<lambda>(l, f). last (snd l)) x = (\<lambda>(l, f). last (snd l)) y"
    obtain l1 f1 where x': "x = (l1, f1)" by (cases x)
    obtain l2 f2 where y': "y = (l2, f2)" by (cases y)
    have p1: "fst l1 = fst ?d" "snd l1 \<noteq> []" "butlast (snd l1) = snd ?d"
      using x x' by simp_all
    have p2: "fst l2 = fst ?d" "snd l2 \<noteq> []" "butlast (snd l2) = snd ?d"
      using y y' by simp_all
    have "last (snd l1) = last (snd l2)" using e x' y' by simp
    then have l: "l1 = l2"
      using in_folder_loc [OF p1] in_folder_loc [OF p2] by simp
    have "(l1, f1) \<in> set s" "(l2, f2) \<in> set s" using x y x' y' by simp_all
    then have "map_of s l1 = Some f1" "map_of s l2 = Some f2"
      using assms by simp_all
    then show "x = y" using l x' y' by simp
  qed
  then show ?thesis using ds by (simp add: listdir_def distinct_map)
qed

section \<open>Facts about rasterizing\<close>

lemma png_output_loc:
  "locate (path_join ''.'' (path_join folder (png_name j))) = png_loc folder j"
  by (simp add: locate_dot_join locate_join [OF proper_png_name] png_loc_def)

lemma png_output_is_file:
  "is_file_path (path_join ''.'' (path_join folder (png_name j)))"
  by (simp add: is_file_path_dot_join is_file_path_join [OF proper_png_name])

lemma save_pages_Cons:
  assumes "save_pages B (s, g) folder blur ksize sigma ((p, j) # rest) = Inr r"
  shows "\<exists>x g1. save_pages B (AList.update (png_loc folder j) (PngFile x) s, g1)
                   folder blur ksize sigma rest = Inr r"
  using assms
  by (auto simp: Let_def write_file_def png_output_loc png_output_is_file
           split: sum.splits if_splits prod.splits)

lemma save_pages_effect:
  assumes "save_pages B (s, g) folder blur ksize sigma pjs = Inr (s', g')"
  shows "(\<forall>l. l \<notin> png_loc folder ` snd ` set pjs \<longrightarrow> map_of s' l = map_of s l)
       \<and> (\<forall>j \<in> snd ` set pjs. \<exists>i. map_of s' (png_loc folder j) = Some (PngFile i))
       \<and> (distinct (map fst s) \<longrightarrow> distinct (map fst s'))"
  using assms
proof (induction pjs arbitrary: s g)
  case Nil
  then show ?case by simp
next
  case (Cons a rest)
  obtain p j where a: "a = (p, j)" by (cases a)
  obtain x g1 where
    r: "save_pages B (AList.update (png_loc folder j) (PngFile x) s, g1)
          folder blur ksize sigma rest = Inr (s', g')"
    using save_pages_Cons Cons.prems unfolding a by blast
  let ?s1 = "AList.update (png_loc folder j) (PngFile x) s"
  note ih = Cons.IH [OF r]
  have 1: "\<forall>l. l \<notin> png_loc folder ` snd ` set (a # rest) \<longrightarrow> map_of s' l = map_of s l"
  proof (intro allI impI)
    fix l assume l: "l \<notin> png_loc folder ` snd ` set (a # rest)"
    then have n: "l \<notin> png_loc folder ` snd ` set rest" and m: "l \<noteq> png_loc folder j"
      by (auto simp: a)
    have "map_of s' l = map_of ?s1 l" using ih n by blast
    also have "\<dots> = map_of s l" using m by (simp add: update_conv')
    finally show "map_of s' l = map_of s l" .
  qed
  have 2: "\<forall>k \<in> snd ` set (a # rest). \<exists>i. map_of s' (png_loc folder k) = Some (PngFile i)"
  proof
    fix k assume k: "k \<in> snd ` set (a # rest)"
    show "\<exists>i. map_of s' (png_loc folder k) = Some (PngFile i)"
    proof (cases "png_loc folder k \<in> png_loc folder ` snd ` set rest")
      case True
      then show ?thesis using ih by auto
    next
      case False
      then have "k = j" using k by (auto simp: a)
      moreover have "map_of s' (png_loc folder k) = map_of ?s1 (png_loc folder k)"
        using ih False by blast
      ultimately show ?thesis by (simp add: update_conv')
    qed
  qed
  have 3: "distinct (map fst s) \<longrightarrow> distinct (map fst s')"
  proof
    assume "distinct (map fst s)"
    then have "distinct (map fst ?s1)" by (rule distinct_update)
    then show "distinct (map fst s')" using ih by blast
  qed
  show ?case using 1 2 3 by blast
qed

lemma pdf_to_image_effect:
  assumes "pdf_to_image render B (s, g) path_to_pdf folder dpi blur ksize sigma = Inr (s', g')"
    and "read_pdf s path_to_pdf = Inr d"
  shows "(\<forall>l. l \<notin> png_loc folder ` {..<length (pages d)} \<longrightarrow> map_of s' l = map_of s l)
       \<and> (\<forall>j < length (pages d). \<exists>i. map_of s' (png_loc folder j) = Some (PngFile i))
       \<and> (distinct (map fst s) \<longrightarrow> distinct (map fst s'))"
proof -
  let ?pgs = "map (render dpi) (pages d)"
  have sp: "save_pages B (s, g) folder blur ksize sigma (zip ?pgs [0..<length ?pgs]) = Inr (s', g')"
    using assms by (simp add: pdf_to_image_def convert_from_path_def)
  have "map snd (zip ?pgs [0..<length ?pgs]) = [0..<length ?pgs]"
    by (rule map_snd_zip) simp
  then have "snd ` set (zip ?pgs [0..<length ?pgs]) = set [0..<length ?pgs]"
    by (metis set_map)
  then have js: "snd ` set (zip ?pgs [0..<length ?pgs]) = {..<length (pages d)}"
    by (simp add: atLeast0LessThan)
  show ?thesis using save_pages_effect [OF sp] unfolding js by simp
qed

section \<open>Page images and their listing\<close>

lemma sort_is_page_order:
  assumes "distinct xs" "distinct ys" "set xs = set ys"
  shows "(sort xs = ys) = sorted (ys :: string list)"
proof
  assume "sort xs = ys"
  then show "sorted ys" using sorted_sort [of xs] by simp
next
  assume "sorted ys"
  then show "sort xs = ys"
    using assms by (intro sorted_distinct_set_unique) simp_all
qed

lemma png_loc_inj: "png_loc folder i = png_loc folder j \<Longrightarrow> i = j"
  by (simp add: png_loc_def png_name_inj)

lemma save_pages_step:
  assumes "save_pages B (s, g) folder blur ksize sigma ((p, j) # rest) = Inr r"
  shows "\<exists>x g1. (if blur then blur_image B g p ksize sigma = Inr (x, g1) else x = p \<and> g1 = g)
           \<and> save_pages B (AList.update (png_loc folder j) (PngFile x) s, g1)
                folder blur ksize sigma rest = Inr r"
proof (cases blur)
  case True
  then obtain x g1 where b: "blur_image B g p ksize sigma = Inr (x, g1)"
    using assms by (auto simp: Let_def split: sum.splits)
  then have "save_pages B (AList.update (png_loc folder j) (PngFile x) s, g1)
                folder blur ksize sigma rest = Inr r"
    using assms True
    by (simp add: Let_def write_file_def png_output_loc png_output_is_file)
  then show ?thesis using True b by auto
next
  case False
  then have "save_pages B (AList.update (png_loc folder j) (PngFile p) s, g)
                folder blur ksize sigma rest = Inr r"
    using assms
    by (simp add: Let_def write_file_def png_output_loc png_output_is_file)
  then show ?thesis using False by auto
qed

text \<open>
  The file of index \<open>j\<close> holds what was made of the page paired with \<open>j\<close>: the page
  image itself, or what the blur filter returned for it.
\<close>

lemma save_pages_content:
  assumes "save_pages B (s, g) folder blur ksize sigma pjs = Inr (s', g')"
    and "distinct (map snd pjs)" and "(p, j) \<in> set pjs"
  shows "\<exists>i. map_of s' (png_loc folder j) = Some (PngFile i)
           \<and> (if blur then \<exists>g0 g1. blur_image B g0 p ksize sigma = Inr (i, g1) else i = p)"
  using assms
proof (induction pjs arbitrary: s g)
  case Nil
  then show ?case by simp
next
  case (Cons a rest)
  obtain p0 j0 where a: "a = (p0, j0)" by (cases a)
  obtain x g1 where
    x: "if blur then blur_image B g p0 ksize sigma = Inr (x, g1) else x = p0 \<and> g1 = g"
    and r: "save_pages B (AList.update (png_loc folder j0) (PngFile x) s, g1)
          folder blur ksize sigma rest = Inr (s', g')"
    using save_pages_step Cons.prems(1) unfolding a by blast
  have dr: "distinct (map snd rest)" and j0: "j0 \<notin> snd ` set rest"
    using Cons.prems(2) by (auto simp: a)
  show ?case
  proof (cases "(p, j) \<in> set rest")
    case True
    then show ?thesis using Cons.IH [OF r dr] by blast
  next
    case False
    then have e: "p = p0" "j = j0" using Cons.prems(3) by (auto simp: a)
    have "png_loc folder j0 \<notin> png_loc folder ` snd ` set rest"
      using j0 png_loc_inj by blast
    then have "map_of s' (png_loc folder j0)
        = map_of (AList.update (png_loc folder j0) (PngFile x) s) (png_loc folder j0)"
      using save_pages_effect [OF r] by blast
    then have m: "map_of s' (png_loc folder j) = Some (PngFile x)"
      by (simp add: e update_conv')
    have "if blur then \<exists>g0 g1. blur_image B g0 p ksize sigma = Inr (x, g1) else x = p"
      using x e by (cases blur) auto
    then show ?thesis using m by blast
  qed
qed

lemma pdf_to_image_content:
  assumes run: "pdf_to_image render B (s, g) path_to_pdf folder dpi blur ksize sigma = Inr (s', g')"
    and rd: "read_pdf s path_to_pdf = Inr d" and j: "j < length (pages d)"
  shows "\<exists>i. map_of s' (png_loc folder j) = Some (PngFile i)
           \<and> (if blur then \<exists>g0 g1. blur_image B g0 (render dpi (pages d ! j)) ksize sigma
                                     = Inr (i, g1)
               else i = render dpi (pages d ! j))"
proof -
  let ?pgs = "map (render dpi) (pages d)"
  have sp: "save_pages B (s, g) folder blur ksize sigma (zip ?pgs [0..<length ?pgs]) = Inr (s', g')"
    using run rd by (simp add: pdf_to_image_def convert_from_path_def)
  have ds: "distinct (map snd (zip ?pgs [0..<length ?pgs]))"
    by (simp add: map_snd_zip)
  have "(?pgs ! j, [0..<length ?pgs] ! j) \<in> set (zip ?pgs [0..<length ?pgs])"
    unfolding set_zip using j by (intro CollectI exI [of _ j]) simp
  then have m: "(render dpi (pages d ! j), j) \<in> set (zip ?pgs [0..<length ?pgs])"
    using j by simp
  show ?thesis using save_pages_content [OF sp ds m] .
qed

text \<open>
  C4, as the program behaves. Rasterizing a document of \<open>n\<close> pages into a folder that
  holds no PNG file leaves there one PNG file per page and nothing else that the listing
  picks up: the file \<open>_j.png\<close> holds the image of page \<open>j\<close> (counted from 0) at the
  given resolution, passed through the blur filter when blurring is on. The sorted
  listing of the folder is \<open>_0.png\<close>, \<open>_1.png\<close>, and so on in page order, exactly when
  \<open>n\<close> is at most 10.
\<close>

theorem page_images_listing:
  assumes ds: "distinct (map fst s)"
    and em: "glob_star s output_folder ''.png'' = []"
    and rd: "read_pdf s path_to_pdf = Inr d"
    and run: "pdf_to_image render B (s, g) path_to_pdf output_folder dpi blur ksize sigma
                = Inr (s', g')"
  shows "(\<forall>j < length (pages d).
            \<exists>i. read_file s' (path_join output_folder (png_name j)) = Inr (PngFile i)
              \<and> (if blur
                   then \<exists>g0 g1. blur_image B g0 (render dpi (pages d ! j)) ksize sigma
                                  = Inr (i, g1)
                   else i = render dpi (pages d ! j)))
       \<and> length (glob_star s' output_folder ''.png'') = length (pages d)
       \<and> ((sort (glob_star s' output_folder ''.png'')
             = map (\<lambda>j. path_join output_folder (png_name j)) [0..<length (pages d)])
          = (length (pages d) \<le> 10))"
proof -
  let ?n = "length (pages d)"
  let ?F = "filter (fnmatch_star ''.png'') (listdir s' output_folder)"
  let ?T = "map (\<lambda>j. path_join output_folder (png_name j)) [0..<?n]"
  note eff = pdf_to_image_effect [OF run rd]
  have e1: "\<And>l. l \<notin> png_loc output_folder ` {..<?n} \<Longrightarrow> map_of s' l = map_of s l"
    using eff by blast
  have e2: "\<And>j. j < ?n \<Longrightarrow> \<exists>i. map_of s' (png_loc output_folder j) = Some (PngFile i)"
    using eff by blast
  have e3: "distinct (map fst s')" using eff ds by blast
  have files: "\<forall>j < ?n.
      \<exists>i. read_file s' (path_join output_folder (png_name j)) = Inr (PngFile i)
        \<and> (if blur
             then \<exists>g0 g1. blur_image B g0 (render dpi (pages d ! j)) ksize sigma = Inr (i, g1)
             else i = render dpi (pages d ! j))"
  proof (intro allI impI)
    fix j assume j: "j < ?n"
    obtain i where i: "map_of s' (png_loc output_folder j) = Some (PngFile i)"
      and c: "if blur
             then \<exists>g0 g1. blur_image B g0 (render dpi (pages d ! j)) ksize sigma = Inr (i, g1)
             else i = render dpi (pages d ! j)"
      using pdf_to_image_content [OF run rd j] by blast
    have "read_file s' (path_join output_folder (png_name j)) = Inr (PngFile i)"
      using i by (simp add: read_file_def is_file_path_join [OF proper_png_name]
            locate_join [OF proper_png_name] png_loc_def)
    then show "\<exists>i. read_file s' (path_join output_folder (png_name j)) = Inr (PngFile i)
        \<and> (if blur
             then \<exists>g0 g1. blur_image B g0 (render dpi (pages d ! j)) ksize sigma = Inr (i, g1)
             else i = render dpi (pages d ! j))"
      using c by blast
  qed
  have old: "\<And>m. m \<in> set (listdir s output_folder) \<Longrightarrow> \<not> fnmatch_star ''.png'' m"
    using em by (simp add: glob_star_def filter_empty_conv)
  have names: "set ?F = png_name ` {..<?n}"
  proof (rule set_eqI, rule iffI)
    fix m assume m: "m \<in> set ?F"
    then have in': "map_of s' (fst (locate output_folder), snd (locate output_folder) @ [m]) \<noteq> None"
      and fm: "fnmatch_star ''.png'' m"
      by (simp_all add: listdir_set)
    show "m \<in> png_name ` {..<?n}"
    proof (rule ccontr)
      assume c: "m \<notin> png_name ` {..<?n}"
      have "(fst (locate output_folder), snd (locate output_folder) @ [m])
              \<notin> png_loc output_folder ` {..<?n}"
        using c by (auto simp: png_loc_def)
      then have "map_of s (fst (locate output_folder), snd (locate output_folder) @ [m]) \<noteq> None"
        using e1 in' by simp
      then have "m \<in> set (listdir s output_folder)" by (simp add: listdir_set)
      then show False using old fm by blast
    qed
  next
    fix m assume "m \<in> png_name ` {..<?n}"
    then obtain j where j: "j < ?n" "m = png_name j" by auto
    have "map_of s' (png_loc output_folder j) \<noteq> None" using e2 [OF j(1)] by auto
    then have "m \<in> set (listdir s' output_folder)"
      by (simp add: listdir_set j(2) png_loc_def)
    then show "m \<in> set ?F" using fnmatch_png_name [of j] j(2) by simp
  qed
  have dF: "distinct ?F" using listdir_distinct [OF e3] by simp
  obtain pre where pre: "\<And>m. proper_name m \<Longrightarrow> path_join output_folder m = pre @ m"
    using path_join_prefix [of output_folder] by blast
  have pF: "proper_name m" if "m \<in> set ?F" for m
  proof -
    have "m \<in> png_name ` {..<?n}" using that names by blast
    then obtain j where "m = png_name j" by blast
    then show ?thesis using proper_png_name by simp
  qed
  have G: "glob_star s' output_folder ''.png'' = map ((@) pre) ?F"
    unfolding glob_star_def using pF pre by (intro map_cong) auto
  have T: "?T = map (\<lambda>j. pre @ png_name j) [0..<?n]"
    using pre [OF proper_png_name] by simp
  have dG: "distinct (glob_star s' output_folder ''.png'')"
    unfolding G using dF by (simp add: distinct_map inj_on_def)
  have dT: "distinct ?T"
    unfolding T by (auto simp: distinct_map inj_on_def dest: png_name_inj)
  have sG: "set (glob_star s' output_folder ''.png'') = set ?T"
    unfolding G T using names by (auto simp: image_iff)
  have len: "length (glob_star s' output_folder ''.png'') = ?n"
  proof -
    have "length (glob_star s' output_folder ''.png'') = card (set ?T)"
      using distinct_card [OF dG] sG by simp
    also have "\<dots> = length ?T" using distinct_card [OF dT] by simp
    finally show ?thesis by simp
  qed
  have "(sort (glob_star s' output_folder ''.png'') = ?T) = sorted ?T"
    using sort_is_page_order [OF dG dT sG] .
  also have "\<dots> = (?n \<le> 10)" unfolding T by (rule page_order_sorted)
  finally show ?thesis using files len by blast
qed

theorem page_images_listing_witness:
  "distinct (map fst disk) \<and> glob_star disk ''./tmp'' ''.png'' = []
   \<and> read_pdf disk ''./sample_input/lecture1.pdf'' = Inr lecture1 \<and> \<not> isl two_images
   \<and> read_file (fst (projr two_images)) (path_join ''./tmp'' (png_name 0))
        = Inr (PngFile (dpi_render 100 (page_of ''one'')))
   \<and> read_file (fst (projr two_images)) (path_join ''./tmp'' (png_name 1))
        = Inr (PngFile (dpi_render 100 (page_of ''two'')))
   \<and> dpi_render 100 (page_of ''one'') \<noteq> dpi_render 100 (page_of ''two'')
   \<and> length (glob_star (fst (projr two_images)) ''./tmp'' ''.png'') = 2
   \<and> sort (glob_star (fst (projr two_images)) ''./tmp'' ''.png'')
        = [path_join ''./tmp'' (png_name 0), path_join ''./tmp'' (png_name 1)]"
proof -
  have a: "distinct (map fst disk)" by code_simp
  have b: "glob_star disk ''./tmp'' ''.png'' = []" by code_simp
  have c: "read_pdf disk ''./sample_input/lecture1.pdf'' = Inr lecture1" by code_simp
  have r: "\<not> isl two_images" unfolding two_images_def by code_simp
  then have "two_images = Inr (fst (projr two_images), snd (projr two_images))" by simp
  then have d: "pdf_to_image dpi_render one_pixel_blur (disk, draws) ''./sample_input/lecture1.pdf''
       ''./tmp'' 100 False (5, 5) 1 = Inr (fst (projr two_images), snd (projr two_images))"
    unfolding two_images_def .
  have n: "length (pages lecture1) = 2" by (simp add: lecture1_def)
  have u: "[0..<2] = [0, Suc 0]" by (simp add: upt_rec numeral_2_eq_2)
  have p: "pages lecture1 ! 0 = page_of ''one''" "pages lecture1 ! Suc 0 = page_of ''two''"
    by (simp_all add: lecture1_def)
  have ne: "dpi_render 100 (page_of ''one'') \<noteq> dpi_render 100 (page_of ''two'')"
    by code_simp
  note t = page_images_listing [OF a b c d]
  have f0: "read_file (fst (projr two_images)) (path_join ''./tmp'' (png_name 0))
        = Inr (PngFile (dpi_render 100 (page_of ''one'')))"
    using t [THEN conjunct1, rule_format, of 0] by (auto simp: n p)
  have f1: "read_file (fst (projr two_images)) (path_join ''./tmp'' (png_name 1))
        = Inr (PngFile (dpi_render 100 (page_of ''two'')))"
    using t [THEN conjunct1, rule_format, of 1] by (auto simp: n p)
  have rest: "length (glob_star (fst (projr two_images)) ''./tmp'' ''.png'') = 2
   \<and> sort (glob_star (fst (projr two_images)) ''./tmp'' ''.png'')
        = [path_join ''./tmp'' (png_name 0), path_join ''./tmp'' (png_name 1)]"
    using t [THEN conjunct2] unfolding n by (simp add: u)
  show ?thesis using a b c r f0 f1 ne rest by simp
qed

text \<open>
  C4 as stated fails at ten pages: the indices are 0 to 9, so the sorted listing is the
  page order, first page first and last page last, although the page count is not
  under 10.
\<close>

theorem ten_pages_listed_in_order:
  "length (pages ten_pages) = 10 \<and> \<not> isl ten_images
   \<and> read_file (fst (projr ten_images)) ''./tmp/_0.png''
        = Inr (PngFile (dpi_render 100 (page_of ''0'')))
   \<and> read_file (fst (projr ten_images)) ''./tmp/_9.png''
        = Inr (PngFile (dpi_render 100 (page_of ''9'')))
   \<and> sort (glob_star (fst (projr ten_images)) ''./tmp'' ''.png'')
        = [''./tmp/_0.png'', ''./tmp/_1.png'', ''./tmp/_2.png'', ''./tmp/_3.png'',
           ''./tmp/_4.png'', ''./tmp/_5.png'', ''./tmp/_6.png'', ''./tmp/_7.png'',
           ''./tmp/_8.png'', ''./tmp/_9.png'']"
proof -
  have a: "length (pages ten_pages) = 10" by (simp add: ten_pages_def)
  have b: "\<not> isl ten_images" unfolding ten_images_def by code_simp
  have c: "sort (glob_star (fst (projr ten_images)) ''./tmp'' ''.png'')
        = [''./tmp/_0.png'', ''./tmp/_1.png'', ''./tmp/_2.png'', ''./tmp/_3.png'',
           ''./tmp/_4.png'', ''./tmp/_5.png'', ''./tmp/_6.png'', ''./tmp/_7.png'',
           ''./tmp/_8.png'', ''./tmp/_9.png'']"
    unfolding ten_images_def by code_simp
  have e: "read_file (fst (projr ten_images)) ''./tmp/_0.png''
        = Inr (PngFile (dpi_render 100 (page_of ''0'')))"
    unfolding ten_images_def by code_simp
  have f: "read_file (fst (projr ten_images)) ''./tmp/_9.png''
        = Inr (PngFile (dpi_render 100 (page_of ''9'')))"
    unfolding ten_images_def by code_simp
  show ?thesis using a b c e f by simp
qed

section \<open>Facts about names with a dot\<close>

lemma file_name_of_stem:
  assumes "last (split_chr sep p) = n @ ''.'' @ r" and "CHR ''.'' \<notin> set n"
  shows "file_name p = n"
proof -
  have "takeWhile (\<lambda>x. x \<noteq> CHR ''.'') (n @ CHR ''.'' # r) = n"
    using assms(2) by (subst takeWhile_append2) auto
  then show ?thesis using assms(1) by (simp add: file_name_takeWhile)
qed

section \<open>Archiving when the suffixed name is free\<close>

lemma proper_exists_name:
  "proper_name (file_name p @ (''_exists_'' @ str_nat rnd @ ''.pdf''))"
  using file_name_no_sep [of p] str_nat_chars [of sep rnd]
  by (auto simp: proper_name_def sep_def)

lemma exists_name_differs:
  "file_name p @ (''_exists_'' @ str_nat rnd @ ''.pdf'') \<noteq> file_name p @ ''.pdf''"
  by simp

text \<open>
  What the archiving does keep: when the archive already holds the plain name, the
  suffixed name is free and the input is not the archived file itself, a move that
  returns leaves the archived file as it was and puts the input under the suffixed
  name, a different place.
\<close>

lemma move_keeps_archived:
  assumes ex: "path_exists s (archive_path p folder)"
    and free: "\<not> path_exists s (exists_path rnd p folder)"
    and other: "locate p \<noteq> locate (archive_path p folder)"
    and run: "move_processed_pdf rnd s p folder = Inr s'"
  shows "read_file s' (archive_path p folder) = read_file s (archive_path p folder)
       \<and> read_file s' (exists_path rnd p folder) = read_file s p
       \<and> locate (exists_path rnd p folder) \<noteq> locate (archive_path p folder)"
proof -
  let ?A = "archive_path p folder" and ?E = "exists_path rnd p folder"
  have lA: "locate ?A = (fst (locate folder), snd (locate folder) @ [file_name p @ ''.pdf''])"
    unfolding archive_path_def by (rule locate_join [OF proper_pdf_name])
  have lE: "locate ?E = (fst (locate folder),
              snd (locate folder) @ [file_name p @ (''_exists_'' @ str_nat rnd @ ''.pdf'')])"
    unfolding exists_path_def by (rule locate_join [OF proper_exists_name])
  have ne: "locate ?E \<noteq> locate ?A" unfolding lA lE using exists_name_differs by simp
  have fA: "is_file_path ?A"
    unfolding archive_path_def by (rule is_file_path_join [OF proper_pdf_name])
  have fE: "is_file_path ?E"
    unfolding exists_path_def by (rule is_file_path_join [OF proper_exists_name])
  have r: "os_rename s p ?E = Inr s'"
    using run ex by (simp add: move_processed_pdf_def Let_def)
  then obtain f where f: "is_file_path p" "map_of s (locate p) = Some f"
      "s' = AList.update (locate ?E) f (AList.delete (locate p) s)"
    by (auto simp: os_rename_def split: if_splits option.splits)
  have "map_of s' (locate ?A) = map_of s (locate ?A)"
    using ne other by (simp add: f(3) update_conv' delete_conv')
  moreover have "map_of s' (locate ?E) = Some f" by (simp add: f(3) update_conv')
  ultimately show ?thesis using ne fA fE f(1,2) by (simp add: read_file_def)
qed

section \<open>Facts about the names in the scratch folder\<close>

lemma last_str_nat: "str_nat n \<noteq> [] \<and> last (str_nat n) = digit_chr (n mod 10)"
  by (subst (1 2) str_nat.simps) simp

lemma tmp_name_inj: "tmp_name i = tmp_name j \<Longrightarrow> i = j"
  by (simp add: tmp_name_def str_nat_inj)

lemma proper_tmp_name: "proper_name (tmp_name j)"
  using str_nat_chars [of sep j] by (auto simp: proper_name_def tmp_name_def sep_def)

lemma ends_with: "drop (length (a @ b) - length b) (a @ b) = b"
  by simp

lemma fnmatch_tmp_name: "fnmatch_star ''.pdf'' (tmp_name j)"
proof -
  have "tmp_name j = (''tmp_'' @ str_nat j) @ ''.pdf''" by (simp add: tmp_name_def)
  then have "drop (length (tmp_name j) - length ''.pdf'') (tmp_name j) = ''.pdf''"
    using ends_with [of "''tmp_'' @ str_nat j" "''.pdf''"] by simp
  then show ?thesis by (simp add: fnmatch_star_def) (simp add: tmp_name_def)
qed

lemma png_name_not_pdf: "\<not> fnmatch_star ''.pdf'' (png_name j)"
proof -
  have "png_name j = (''_'' @ str_nat j) @ ''.png''" by (simp add: png_name_def)
  then have "drop (length (png_name j) - length ''.png'') (png_name j) = ''.png''"
    using ends_with [of "''_'' @ str_nat j" "''.png''"] by simp
  then show ?thesis by (simp add: fnmatch_star_def)
qed

lemma tmp_name_not_png: "\<not> fnmatch_star ''.png'' (tmp_name j)"
proof -
  have "tmp_name j = (''tmp_'' @ str_nat j) @ ''.pdf''" by (simp add: tmp_name_def)
  then have "drop (length (tmp_name j) - length ''.pdf'') (tmp_name j) = ''.pdf''"
    using ends_with [of "''tmp_'' @ str_nat j" "''.pdf''"] by simp
  then show ?thesis by (simp add: fnmatch_star_def)
qed

lemma png_name_not_tmp_name: "png_name j \<noteq> tmp_name k"
  using fnmatch_png_name [of j] tmp_name_not_png [of k] by auto

lemma pdf_loc_inj: "pdf_loc folder i = pdf_loc folder j \<Longrightarrow> i = j"
  by (simp add: pdf_loc_def tmp_name_inj)

lemma png_loc_not_pdf_loc: "png_loc folder j \<noteq> pdf_loc folder k"
  by (simp add: png_loc_def pdf_loc_def png_name_not_tmp_name)

lemma tmp_path_loc: "locate (path_join folder (tmp_name k)) = pdf_loc folder k"
  by (simp add: locate_join [OF proper_tmp_name] pdf_loc_def)

lemma png_path_loc: "locate (path_join folder (png_name j)) = png_loc folder j"
  by (simp add: locate_join [OF proper_png_name] png_loc_def)

lemma tmp_path_is_file: "is_file_path (path_join folder (tmp_name k))"
  by (rule is_file_path_join [OF proper_tmp_name])

lemma png_path_is_file: "is_file_path (path_join folder (png_name j))"
  by (rule is_file_path_join [OF proper_png_name])

text \<open>A stage's output name is neither a page image's nor a one-page document's.\<close>

lemma stage_name_not_png: "file_name p @ sfx @ ''.pdf'' \<noteq> png_name j"
proof
  assume e: "file_name p @ sfx @ ''.pdf'' = png_name j"
  have "fnmatch_star ''.pdf'' (png_name j) \<or> take 1 (png_name j) = ''.''"
  proof -
    have "drop (length ((file_name p @ sfx) @ ''.pdf'') - length ''.pdf'')
            ((file_name p @ sfx) @ ''.pdf'') = ''.pdf''"
      by (rule ends_with)
    then have "drop (length (png_name j) - length ''.pdf'') (png_name j) = ''.pdf''"
      using e by simp
    moreover have "length ''.pdf'' \<le> length (png_name j)"
      using e [symmetric] by simp
    ultimately show ?thesis by (auto simp: fnmatch_star_def)
  qed
  then show False using png_name_not_pdf [of j] by (simp add: png_name_def)
qed

lemma digit_chr_not_letter:
  "d < 10 \<Longrightarrow> digit_chr d \<noteq> CHR ''f'' \<and> digit_chr d \<noteq> CHR ''d''"
proof -
  assume d: "d < 10"
  have "of_char (digit_chr d) \<noteq> (of_char (CHR ''f'') :: nat)"
    using d by (simp add: of_char_digit_chr)
  moreover have "of_char (digit_chr d) \<noteq> (of_char (CHR ''d'') :: nat)"
    using d by (simp add: of_char_digit_chr)
  ultimately show ?thesis by auto
qed

lemma stage_name_not_tmp:
  assumes "sfx \<noteq> []" and "last sfx = CHR ''f'' \<or> last sfx = CHR ''d''"
  shows "file_name p @ sfx @ ''.pdf'' \<noteq> tmp_name k"
proof
  assume e: "file_name p @ sfx @ ''.pdf'' = tmp_name k"
  then have "(file_name p @ sfx) @ ''.pdf'' = (''tmp_'' @ str_nat k) @ ''.pdf''"
    by (simp add: tmp_name_def)
  then have "file_name p @ sfx = ''tmp_'' @ str_nat k" by (rule append_same_eq [THEN iffD1])
  then have "last (file_name p @ sfx) = last (''tmp_'' @ str_nat k)" by simp
  then have "last sfx = digit_chr (k mod 10)"
    using assms(1) last_str_nat [of k] by simp
  then show False using assms(2) digit_chr_not_letter [of "k mod 10"] by auto
qed

lemma stage_out_not_scratch:
  assumes "sfx \<noteq> []" "sep \<notin> set sfx" "CHR ''.'' \<notin> set sfx"
    and "last sfx = CHR ''f'' \<or> last sfx = CHR ''d''"
  shows "locate (path_join d (file_name p @ sfx @ ''.pdf'')) \<noteq> pdf_loc tmp k
       \<and> locate (path_join d (file_name p @ sfx @ ''.pdf'')) \<noteq> png_loc tmp j"
  using stage_name_not_tmp [OF assms(1) assms(4), of p k] stage_name_not_png [of p sfx j]
  by (simp add: locate_join [OF proper_stage_name [OF assms(1-3)]] pdf_loc_def png_loc_def)

lemma tmp_name_mono: "i \<le> j \<Longrightarrow> j < 10 \<Longrightarrow> tmp_name i \<le> tmp_name j"
proof (cases "i = j")
  case True then show ?thesis by simp
next
  case False
  assume "i \<le> j" "j < 10"
  then have l: "i < j" "i < 10" "j < 10" using False by auto
  have "str_nat i = [digit_chr i]" "str_nat j = [digit_chr j]"
    using l by (simp_all add: str_nat.simps)
  then show ?thesis using digit_chr_less [OF l(1) l(3)]
    by (simp add: tmp_name_def)
qed

lemma names_sorted:
  assumes "n \<le> 10"
  shows "sorted (map (\<lambda>j. pre @ png_name j) [0..<n])"
    and "sorted (map (\<lambda>j. pre @ tmp_name j) [0..<n])"
  unfolding sorted_iff_nth_mono using assms
  by (auto simp: prefix_le intro: png_name_mono tmp_name_mono)

section \<open>Facts about sorted listings\<close>

lemma path_join_inj:
  assumes "proper_name a" "proper_name b" "path_join folder a = path_join folder b"
  shows "a = b"
proof -
  obtain pre where "\<forall>n. proper_name n \<longrightarrow> path_join folder n = pre @ n"
    using path_join_prefix [of folder] by blast
  then show ?thesis using assms by auto
qed

text \<open>
  When the names a listing picks up are \<open>nm 0\<close>, ..., \<open>nm (n - 1)\<close>, the sorted listing
  is these paths in some order without repetition, and in the order of the indices when
  that order is sorted.
\<close>

lemma sorted_listing:
  assumes ds: "distinct (map fst s)"
    and names: "set (filter (fnmatch_star suffix) (listdir s folder)) = nm ` {..<n}"
    and pr: "\<And>j. proper_name (nm j)"
    and inj: "\<And>i j. nm i = nm j \<Longrightarrow> i = j"
  shows "\<exists>js. distinct js \<and> set js = {..<n} \<and> length js = n
           \<and> sort (glob_star s folder suffix) = map (\<lambda>j. path_join folder (nm j)) js
           \<and> (sorted (map (\<lambda>j. path_join folder (nm j)) [0..<n]) \<longrightarrow> js = [0..<n])"
proof -
  let ?f = "\<lambda>j. path_join folder (nm j)"
  let ?F = "filter (fnmatch_star suffix) (listdir s folder)"
  let ?L = "sort (glob_star s folder suffix)"
  have finj: "inj ?f"
    by (rule injI) (metis path_join_inj pr inj)
  have dF: "distinct ?F" using listdir_distinct [OF ds] by simp
  have pF: "proper_name m" if "m \<in> set ?F" for m
  proof -
    have "m \<in> nm ` {..<n}" using that names by blast
    then obtain j where "m = nm j" by blast
    then show ?thesis using pr by simp
  qed
  have "distinct (map (path_join folder) ?F)"
    unfolding distinct_map using dF pF by (auto intro!: inj_onI dest: path_join_inj)
  then have dL: "distinct ?L" by (simp add: glob_star_def)
  have "set (map (path_join folder) ?F) = path_join folder ` nm ` {..<n}"
    using names by simp
  then have sL: "set ?L = ?f ` {..<n}" by (simp add: glob_star_def image_image)
  have "\<forall>y \<in> set ?L. \<exists>j. y = ?f j" using sL by auto
  then obtain js where js: "?L = map ?f js" unfolding ex_map_conv [symmetric] by blast
  have djs: "distinct js" using dL unfolding js by (simp add: distinct_map)
  have "?f ` set js = ?f ` {..<n}" using sL unfolding js by simp
  then have sjs: "set js = {..<n}" using finj by (simp add: inj_image_eq_iff)
  have ljs: "length js = n"
    using distinct_card [OF djs] sjs by simp
  have ord: "js = [0..<n]" if so: "sorted (map ?f [0..<n])"
  proof -
    have "distinct (map ?f [0..<n])"
      unfolding distinct_map using finj by (auto intro: inj_onI dest: injD)
    moreover have "set (map ?f [0..<n]) = set ?L" using sL by (simp add: atLeast0LessThan)
    ultimately have "?L = map ?f [0..<n]"
      using so dL by (intro sorted_distinct_set_unique) simp_all
    then have "map ?f js = map ?f [0..<n]" using js by simp
    then show ?thesis using finj by (simp add: inj_map_eq_map)
  qed
  show ?thesis using djs sjs ljs js ord by blast
qed

lemma glob_empty_names:
  "glob_star s folder suffix = [] \<Longrightarrow> m \<in> set (listdir s folder) \<Longrightarrow> \<not> fnmatch_star suffix m"
  by (simp add: glob_star_def filter_empty_conv)

lemma in_listdir: "(m \<in> set (listdir s folder))
    = (map_of s (fst (locate folder), snd (locate folder) @ [m]) \<noteq> None)"
  by (simp add: listdir_set)

text \<open>What a folder that held no page image and no PDF lists after rasterizing into it.\<close>

lemma names_after_rasterizing:
  assumes e1: "\<And>l. l \<notin> png_loc folder ` {..<n} \<Longrightarrow> map_of s1 l = map_of s l"
    and e2: "\<And>j. j < n \<Longrightarrow> map_of s1 (png_loc folder j) \<noteq> None"
    and em: "glob_star s folder ''.png'' = []"
    and ep: "glob_star s folder ''.pdf'' = []"
  shows "set (filter (fnmatch_star ''.png'') (listdir s1 folder)) = png_name ` {..<n}"
    and "filter (fnmatch_star ''.pdf'') (listdir s1 folder) = []"
proof -
  have old: "m \<in> set (listdir s folder)" if "m \<in> set (listdir s1 folder)"
      "m \<notin> png_name ` {..<n}" for m
  proof -
    have "(fst (locate folder), snd (locate folder) @ [m]) \<notin> png_loc folder ` {..<n}"
      using that(2) by (auto simp: png_loc_def)
    then show ?thesis using that(1) e1 by (simp add: in_listdir)
  qed
  show "set (filter (fnmatch_star ''.png'') (listdir s1 folder)) = png_name ` {..<n}"
  proof (rule set_eqI, rule iffI)
    fix m assume m: "m \<in> set (filter (fnmatch_star ''.png'') (listdir s1 folder))"
    show "m \<in> png_name ` {..<n}"
    proof (rule ccontr)
      assume "m \<notin> png_name ` {..<n}"
      then have "m \<in> set (listdir s folder)" using old m by simp
      then show False using glob_empty_names [OF em] m by simp
    qed
  next
    fix m assume "m \<in> png_name ` {..<n}"
    then obtain j where j: "j < n" "m = png_name j" by auto
    have "m \<in> set (listdir s1 folder)"
      using e2 [OF j(1)] by (simp add: in_listdir j(2) png_loc_def)
    then show "m \<in> set (filter (fnmatch_star ''.png'') (listdir s1 folder))"
      using fnmatch_png_name [of j] j(2) by simp
  qed
  show "filter (fnmatch_star ''.pdf'') (listdir s1 folder) = []"
  proof (rule ccontr)
    assume "filter (fnmatch_star ''.pdf'') (listdir s1 folder) \<noteq> []"
    then obtain m where m: "m \<in> set (listdir s1 folder)" "fnmatch_star ''.pdf'' m"
      by (auto simp: filter_empty_conv)
    have "m \<notin> png_name ` {..<n}" using m(2) png_name_not_pdf by auto
    then have "m \<in> set (listdir s folder)" using old m(1) by simp
    then show False using glob_empty_names [OF ep] m(2) by simp
  qed
qed

section \<open>Facts about recomposing\<close>

lemma draw_one:
  assumes "map_of s (png_loc tmp j) = Some (PngFile i)"
  shows "draw_image s (set_page name orientation) (path_join tmp (png_name j)) orientation
       = Inr \<lparr>filename = name,
              pagesize = (if orientation = ''landscape'' then landscape A4 else A4),
              drawn = contents (image_page orientation i)\<rparr>"
  using assms
  by (simp add: draw_image_def drawImage_def set_page_def read_file_def png_path_is_file
        png_path_loc image_page_def)

lemma draw_pages_Cons:
  assumes "map_of s (png_loc tmp j) = Some (PngFile i)"
  shows "\<exists>s2. draw_pages s tmp orientation ra ((path_join tmp (png_name j), k) # rest)
               = draw_pages s2 tmp orientation ra rest
           \<and> (\<forall>l. map_of s2 l =
                 (if ra \<and> l = png_loc tmp j then None
                  else if l = pdf_loc tmp k
                    then Some (PdfFile \<lparr>pages = [image_page orientation i], metadata = [],
                                         encrypted = None\<rparr>)
                  else map_of s l))
           \<and> (distinct (map fst s) \<longrightarrow> distinct (map fst s2))"
proof -
  let ?doc = "PdfFile \<lparr>pages = [image_page orientation i], metadata = [], encrypted = None\<rparr>"
  let ?s1 = "AList.update (pdf_loc tmp k) ?doc s"
  have sv: "canvas_save s \<lparr>filename = path_join tmp (tmp_name k),
              pagesize = (if orientation = ''landscape'' then landscape A4 else A4),
              drawn = contents (image_page orientation i)\<rparr> = Inr ?s1"
    by (simp add: canvas_save_def write_file_def tmp_path_is_file tmp_path_loc image_page_def)
  have m1: "map_of ?s1 (png_loc tmp j) = Some (PngFile i)"
    using assms png_loc_not_pdf_loc [of tmp j k] by (simp add: update_conv')
  show ?thesis
  proof (cases ra)
    case True
    let ?s2 = "AList.delete (png_loc tmp j) ?s1"
    have rm: "os_remove ?s1 (path_join tmp (png_name j)) = Inr ?s2"
      using m1 by (simp add: os_remove_def png_path_is_file png_path_loc)
    have "draw_pages s tmp orientation ra ((path_join tmp (png_name j), k) # rest)
               = draw_pages ?s2 tmp orientation ra rest"
      using True by (simp add: draw_one [OF assms] sv rm)
    moreover have "\<forall>l. map_of ?s2 l =
                 (if ra \<and> l = png_loc tmp j then None
                  else if l = pdf_loc tmp k then Some ?doc else map_of s l)"
      using True by (simp add: delete_conv' update_conv')
    moreover have "distinct (map fst s) \<longrightarrow> distinct (map fst ?s2)"
      by (simp add: distinct_update distinct_delete)
    ultimately show ?thesis by blast
  next
    case False
    have "draw_pages s tmp orientation ra ((path_join tmp (png_name j), k) # rest)
               = draw_pages ?s1 tmp orientation ra rest"
      using False by (simp add: draw_one [OF assms] sv)
    moreover have "\<forall>l. map_of ?s1 l =
                 (if ra \<and> l = png_loc tmp j then None
                  else if l = pdf_loc tmp k then Some ?doc else map_of s l)"
      using False by (simp add: update_conv')
    moreover have "distinct (map fst s) \<longrightarrow> distinct (map fst ?s1)"
      by (simp add: distinct_update)
    ultimately show ?thesis by blast
  qed
qed

text \<open>
  Drawing the page images \<open>j\<close> of a list of pairs \<open>(j, k)\<close>, each onto the one-page
  document number \<open>k\<close>: every document holds the page of its image, the images are gone
  when artifacts are removed, and nothing else has changed.
\<close>

lemma draw_pages_effect:
  assumes "distinct (map fst xs)" and "distinct (map snd xs)"
    and "\<forall>(j, k) \<in> set xs. map_of s (png_loc tmp j) = Some (PngFile (img j))"
  shows "\<exists>s'. draw_pages s tmp orientation ra
                 (map (\<lambda>(j, k). (path_join tmp (png_name j), k)) xs) = Inr s'
           \<and> (\<forall>(j, k) \<in> set xs. map_of s' (pdf_loc tmp k) =
                 Some (PdfFile \<lparr>pages = [image_page orientation (img j)], metadata = [],
                                 encrypted = None\<rparr>))
           \<and> (\<forall>l. l \<notin> pdf_loc tmp ` snd ` set xs \<longrightarrow> l \<notin> png_loc tmp ` fst ` set xs
                  \<longrightarrow> map_of s' l = map_of s l)
           \<and> (distinct (map fst s) \<longrightarrow> distinct (map fst s'))"
  using assms
proof (induction xs arbitrary: s)
  case Nil
  then show ?case by simp
next
  case (Cons a rest)
  obtain j k where a: "a = (j, k)" by (cases a)
  let ?doc = "\<lambda>i. PdfFile \<lparr>pages = [image_page orientation i], metadata = [], encrypted = None\<rparr>"
  have here: "map_of s (png_loc tmp j) = Some (PngFile (img j))"
    using Cons.prems(3) by (simp add: a)
  obtain s2 where
    st: "draw_pages s tmp orientation ra ((path_join tmp (png_name j), k)
            # map (\<lambda>(j, k). (path_join tmp (png_name j), k)) rest)
          = draw_pages s2 tmp orientation ra (map (\<lambda>(j, k). (path_join tmp (png_name j), k)) rest)"
    and m2: "\<And>l. map_of s2 l =
                 (if ra \<and> l = png_loc tmp j then None
                  else if l = pdf_loc tmp k then Some (?doc (img j))
                  else map_of s l)"
    and d2: "distinct (map fst s) \<longrightarrow> distinct (map fst s2)"
    using draw_pages_Cons [OF here, of orientation ra k
        "map (\<lambda>(j, k). (path_join tmp (png_name j), k)) rest"] by blast
  have dj: "distinct (map fst rest)" and jr: "j \<notin> fst ` set rest"
    using Cons.prems(1) by (auto simp: a)
  have dk: "distinct (map snd rest)" and kr: "k \<notin> snd ` set rest"
    using Cons.prems(2) by (auto simp: a)
  have pre: "\<forall>(j', k') \<in> set rest. map_of s2 (png_loc tmp j') = Some (PngFile (img j'))"
  proof (clarify)
    fix j' k' assume in': "(j', k') \<in> set rest"
    then have "j' \<noteq> j" using jr by force
    then have "png_loc tmp j' \<noteq> png_loc tmp j" using png_loc_inj by blast
    moreover have "png_loc tmp j' \<noteq> pdf_loc tmp k" by (rule png_loc_not_pdf_loc)
    moreover have "map_of s (png_loc tmp j') = Some (PngFile (img j'))"
      using Cons.prems(3) in' by auto
    ultimately show "map_of s2 (png_loc tmp j') = Some (PngFile (img j'))"
      by (simp add: m2)
  qed
  obtain s' where
    run: "draw_pages s2 tmp orientation ra
            (map (\<lambda>(j, k). (path_join tmp (png_name j), k)) rest) = Inr s'"
    and docs: "\<forall>(j', k') \<in> set rest. map_of s' (pdf_loc tmp k') = Some (?doc (img j'))"
    and frame: "\<And>l. l \<notin> pdf_loc tmp ` snd ` set rest \<Longrightarrow> l \<notin> png_loc tmp ` fst ` set rest
                  \<Longrightarrow> map_of s' l = map_of s2 l"
    and d': "distinct (map fst s2) \<longrightarrow> distinct (map fst s')"
    using Cons.IH [OF dj dk pre] by blast
  have 0: "draw_pages s tmp orientation ra
             (map (\<lambda>(j, k). (path_join tmp (png_name j), k)) (a # rest)) = Inr s'"
    using st run by (simp add: a)
  have k1: "pdf_loc tmp k \<notin> pdf_loc tmp ` snd ` set rest"
    using kr pdf_loc_inj by blast
  have k2: "pdf_loc tmp k \<notin> png_loc tmp ` fst ` set rest"
    using png_loc_not_pdf_loc by (metis imageE)
  have hd: "map_of s' (pdf_loc tmp k) = Some (?doc (img j))"
    using frame [OF k1 k2] png_loc_not_pdf_loc [of tmp j k] by (simp add: m2)
  have 1: "\<forall>(j', k') \<in> set (a # rest). map_of s' (pdf_loc tmp k') = Some (?doc (img j'))"
    using hd docs by (auto simp: a)
  have 2: "\<forall>l. l \<notin> pdf_loc tmp ` snd ` set (a # rest) \<longrightarrow>
               l \<notin> png_loc tmp ` fst ` set (a # rest) \<longrightarrow> map_of s' l = map_of s l"
  proof (intro allI impI)
    fix l assume n1: "l \<notin> pdf_loc tmp ` snd ` set (a # rest)"
      and n2: "l \<notin> png_loc tmp ` fst ` set (a # rest)"
    have "l \<notin> pdf_loc tmp ` snd ` set rest" "l \<noteq> pdf_loc tmp k"
      using n1 by (auto simp: a)
    moreover have "l \<notin> png_loc tmp ` fst ` set rest" "l \<noteq> png_loc tmp j"
      using n2 by (auto simp: a)
    ultimately show "map_of s' l = map_of s l" using frame by (simp add: m2)
  qed
  have 3: "distinct (map fst s) \<longrightarrow> distinct (map fst s')" using d2 d' by blast
  show ?case using 0 1 2 3 by blast
qed

section \<open>Facts about merging\<close>

lemma append_all_pages:
  assumes "\<forall>k \<in> set ks. read_pdf s (path_join tmp (tmp_name k))
             = Inr \<lparr>pages = [pg k], metadata = [], encrypted = None\<rparr>"
  shows "append_all s acc (map (\<lambda>k. path_join tmp (tmp_name k)) ks) = Inr (acc @ map pg ks)"
  using assms by (induction ks arbitrary: acc) simp_all

lemma remove_all_effect:
  assumes "distinct ks" and "\<forall>k \<in> set ks. map_of s (pdf_loc tmp k) \<noteq> None"
  shows "\<exists>s'. remove_all s (map (\<lambda>k. path_join tmp (tmp_name k)) ks) = Inr s'
           \<and> (\<forall>l. map_of s' l = (if l \<in> pdf_loc tmp ` set ks then None else map_of s l))"
  using assms
proof (induction ks arbitrary: s)
  case Nil
  then show ?case by simp
next
  case (Cons k ks)
  let ?s1 = "AList.delete (pdf_loc tmp k) s"
  have rm: "os_remove s (path_join tmp (tmp_name k)) = Inr ?s1"
    using Cons.prems(2) by (auto simp: os_remove_def tmp_path_is_file tmp_path_loc)
  have "\<forall>k' \<in> set ks. map_of ?s1 (pdf_loc tmp k') \<noteq> None"
  proof
    fix k' assume k': "k' \<in> set ks"
    then have "k' \<noteq> k" using Cons.prems(1) by auto
    then have "pdf_loc tmp k' \<noteq> pdf_loc tmp k" using pdf_loc_inj by blast
    then show "map_of ?s1 (pdf_loc tmp k') \<noteq> None"
      using Cons.prems(2) k' by (simp add: delete_conv')
  qed
  moreover have "distinct ks" using Cons.prems(1) by simp
  ultimately obtain s' where
    r: "remove_all ?s1 (map (\<lambda>k. path_join tmp (tmp_name k)) ks) = Inr s'"
    and m: "\<And>l. map_of s' l = (if l \<in> pdf_loc tmp ` set ks then None else map_of ?s1 l)"
    using Cons.IH [of ?s1] by blast
  have "remove_all s (map (\<lambda>k. path_join tmp (tmp_name k)) (k # ks)) = Inr s'"
    using rm r by simp
  moreover have "\<forall>l. map_of s' l
      = (if l \<in> pdf_loc tmp ` set (k # ks) then None else map_of s l)"
    by (auto simp: m delete_conv')
  ultimately show ?case by blast
qed

section \<open>Recomposing and merging a rasterized document\<close>

lemma mset_upt_of_distinct:
  assumes "distinct ks" "set ks = {..<n}"
  shows "mset ks = mset [0..<n]"
proof -
  have "set ks = set [0..<n]" using assms(2) by (simp add: atLeast0LessThan)
  then show ?thesis by (metis assms(1) distinct_upt set_eq_iff_mset_eq_distinct)
qed

lemma map_nth_of: "length js = n \<Longrightarrow> map (\<lambda>k. f (js ! k)) [0..<n] = map f js"
  by (auto intro!: nth_equalityI)

text \<open>
  From a scratch folder that holds the page images \<open>img 0\<close>, ..., \<open>img (n - 1)\<close> under
  their names and no other image or PDF, recomposing and merging return, and the
  document written at the output path consists of the pages of these images: all of
  them, each once, and in the order of the indices when there are at most ten.
\<close>

lemma recompose:
  assumes ds: "distinct (map fst s1)"
    and imgs: "\<And>j. j < n \<Longrightarrow> map_of s1 (png_loc tmp j) = Some (PngFile (img j))"
    and pngs: "set (filter (fnmatch_star ''.png'') (listdir s1 tmp)) = png_name ` {..<n}"
    and nopdf: "filter (fnmatch_star ''.pdf'') (listdir s1 tmp) = []"
    and fo: "is_file_path out"
    and o1: "\<And>k. locate out \<noteq> pdf_loc tmp k"
    and o2: "\<And>j. locate out \<noteq> png_loc tmp j"
  shows "\<exists>s2 s3 pgs. image_to_pdf s1 tmp tmp orientation ra = Inr s2
      \<and> merge_pdfs s2 tmp out ra = Inr s3
      \<and> map_of s3 (locate out) = Some (PdfFile \<lparr>pages = pgs, metadata = [], encrypted = None\<rparr>)
      \<and> mset pgs = mset (map (\<lambda>j. image_page orientation (img j)) [0..<n])
      \<and> (n \<le> 10 \<longrightarrow> pgs = map (\<lambda>j. image_page orientation (img j)) [0..<n])
      \<and> (\<forall>l. l \<noteq> locate out \<longrightarrow> l \<notin> pdf_loc tmp ` {..<n} \<longrightarrow> l \<notin> png_loc tmp ` {..<n}
            \<longrightarrow> map_of s3 l = map_of s1 l)"
proof -
  let ?P = "\<lambda>j. image_page orientation (img j)"
  let ?doc = "\<lambda>i. PdfFile \<lparr>pages = [image_page orientation i], metadata = [], encrypted = None\<rparr>"
  let ?pp = "\<lambda>j. path_join tmp (png_name j)"
  let ?tp = "\<lambda>k. path_join tmp (tmp_name k)"
  obtain pre where pre: "\<And>m. proper_name m \<Longrightarrow> path_join tmp m = pre @ m"
    using path_join_prefix [of tmp] by blast
  obtain js where js: "distinct js" "set js = {..<n}" "length js = n"
      "sort (glob_star s1 tmp ''.png'') = map ?pp js"
      and jso: "sorted (map ?pp [0..<n]) \<Longrightarrow> js = [0..<n]"
    using sorted_listing [OF ds pngs proper_png_name png_name_inj] by blast
  let ?xs = "zip js [0..<n]"
  have z: "zip (map ?pp js) [0..<n] = map (\<lambda>(j, k). (?pp j, k)) ?xs"
    by (simp add: zip_map1)
  have fx: "map fst ?xs = js" and sx: "map snd ?xs = [0..<n]"
    using js(3) by simp_all
  have prex: "\<forall>(j, k) \<in> set ?xs. map_of s1 (png_loc tmp j) = Some (PngFile (img j))"
  proof (clarify)
    fix j k assume "(j, k) \<in> set ?xs"
    then have "j \<in> set js" by (rule set_zip_leftD)
    then show "map_of s1 (png_loc tmp j) = Some (PngFile (img j))" using js(2) imgs by simp
  qed
  have dx: "distinct (map fst ?xs)" "distinct (map snd ?xs)"
    unfolding fx sx using js(1) by simp_all
  obtain s2 where dr: "draw_pages s1 tmp orientation ra (map (\<lambda>(j, k). (?pp j, k)) ?xs) = Inr s2"
    and docs: "\<forall>(j, k) \<in> set ?xs. map_of s2 (pdf_loc tmp k) = Some (?doc (img j))"
    and fr: "\<And>l. l \<notin> pdf_loc tmp ` snd ` set ?xs \<Longrightarrow> l \<notin> png_loc tmp ` fst ` set ?xs
                \<Longrightarrow> map_of s2 l = map_of s1 l"
    and d2': "distinct (map fst s1) \<longrightarrow> distinct (map fst s2)"
    using draw_pages_effect [OF dx prex, of orientation ra] by blast
  have d2: "distinct (map fst s2)" using d2' ds by blast
  have i2p: "image_to_pdf s1 tmp tmp orientation ra = Inr s2"
    using dr z js(3) by (simp add: image_to_pdf_def Let_def js(4))
  have fs: "fst ` set ?xs = {..<n}"
    using fx js(2) by (metis set_map)
  have ss: "snd ` set ?xs = {..<n}"
    using sx by (metis set_map atLeast0LessThan set_upt)
  have doc_k: "map_of s2 (pdf_loc tmp k) = Some (?doc (img (js ! k)))" if "k < n" for k
  proof -
    have "(js ! k, [0..<n] ! k) \<in> set ?xs"
      unfolding set_zip using that js(3) by (intro CollectI exI [of _ k]) simp
    then have "(js ! k, k) \<in> set ?xs" using that by simp
    then show ?thesis using docs by blast
  qed
  have fr2: "map_of s2 l = map_of s1 l"
    if "l \<notin> pdf_loc tmp ` {..<n}" "l \<notin> png_loc tmp ` {..<n}" for l
    using fr that unfolding fs ss by blast
  have pdfs: "set (filter (fnmatch_star ''.pdf'') (listdir s2 tmp)) = tmp_name ` {..<n}"
  proof (rule set_eqI, rule iffI)
    fix m assume m: "m \<in> set (filter (fnmatch_star ''.pdf'') (listdir s2 tmp))"
    let ?l = "(fst (locate tmp), snd (locate tmp) @ [m])"
    have in2: "map_of s2 ?l \<noteq> None" and fm: "fnmatch_star ''.pdf'' m"
      using m by (simp_all add: in_listdir)
    show "m \<in> tmp_name ` {..<n}"
    proof (rule ccontr)
      assume c: "m \<notin> tmp_name ` {..<n}"
      have a: "?l \<notin> pdf_loc tmp ` {..<n}" using c by (auto simp: pdf_loc_def)
      have "m \<notin> png_name ` {..<n}" using fm png_name_not_pdf by auto
      then have b: "?l \<notin> png_loc tmp ` {..<n}" by (auto simp: png_loc_def)
      have "map_of s1 ?l \<noteq> None" using in2 fr2 [OF a b] by simp
      then have "m \<in> set (listdir s1 tmp)" by (simp add: in_listdir)
      then have "m \<in> set (filter (fnmatch_star ''.pdf'') (listdir s1 tmp))" using fm by simp
      then show False using nopdf by simp
    qed
  next
    fix m assume "m \<in> tmp_name ` {..<n}"
    then obtain k where k: "k < n" "m = tmp_name k" by auto
    have "map_of s2 (pdf_loc tmp k) \<noteq> None" using doc_k [OF k(1)] by simp
    then have "m \<in> set (listdir s2 tmp)" by (simp add: in_listdir k(2) pdf_loc_def)
    then show "m \<in> set (filter (fnmatch_star ''.pdf'') (listdir s2 tmp))"
      using fnmatch_tmp_name [of k] k(2) by simp
  qed
  obtain ks where ks: "distinct ks" "set ks = {..<n}" "length ks = n"
      "sort (glob_star s2 tmp ''.pdf'') = map ?tp ks"
      and kso: "sorted (map ?tp [0..<n]) \<Longrightarrow> ks = [0..<n]"
    using sorted_listing [OF d2 pdfs proper_tmp_name tmp_name_inj] by blast
  let ?pg = "\<lambda>k. ?P (js ! k)"
  have rd: "\<forall>k \<in> set ks. read_pdf s2 (?tp k)
             = Inr \<lparr>pages = [?pg k], metadata = [], encrypted = None\<rparr>"
    using doc_k ks(2)
    by (simp add: read_pdf_def read_file_def tmp_path_is_file tmp_path_loc)
  have ap: "append_all s2 [] (map ?tp ks) = Inr (map ?pg ks)"
    using append_all_pages [OF rd, of "[]"] by simp
  let ?X = "PdfFile \<lparr>pages = map ?pg ks, metadata = [], encrypted = None\<rparr>"
  let ?s3 = "AList.update (locate out) ?X s2"
  have wr: "write_file s2 out ?X = Inr ?s3" using fo by (simp add: write_file_def)
  have "\<exists>s3. merge_pdfs s2 tmp out ra = Inr s3
      \<and> (\<forall>l. map_of s3 l = (if ra \<and> l \<in> pdf_loc tmp ` {..<n} then None
                               else if l = locate out then Some ?X else map_of s2 l))"
  proof (cases ra)
    case True
    have "\<forall>k \<in> set ks. map_of ?s3 (pdf_loc tmp k) \<noteq> None"
      using doc_k o1 ks(2) by (simp add: update_conv')
    then obtain s3 where r: "remove_all ?s3 (map ?tp ks) = Inr s3"
      and m: "\<And>l. map_of s3 l = (if l \<in> pdf_loc tmp ` set ks then None else map_of ?s3 l)"
      using remove_all_effect [OF ks(1), of ?s3 tmp] by blast
    have "merge_pdfs s2 tmp out ra = Inr s3"
      using True ap wr r by (simp add: merge_pdfs_def Let_def ks(4))
    moreover have "\<forall>l. map_of s3 l = (if ra \<and> l \<in> pdf_loc tmp ` {..<n} then None
                               else if l = locate out then Some ?X else map_of s2 l)"
      using True by (simp add: m ks(2) update_conv')
    ultimately show ?thesis by blast
  next
    case False
    have "merge_pdfs s2 tmp out ra = Inr ?s3"
      using False ap wr by (simp add: merge_pdfs_def Let_def ks(4))
    moreover have "\<forall>l. map_of ?s3 l = (if ra \<and> l \<in> pdf_loc tmp ` {..<n} then None
                               else if l = locate out then Some ?X else map_of s2 l)"
      using False by (simp add: update_conv')
    ultimately show ?thesis by blast
  qed
  then obtain s3 where mg: "merge_pdfs s2 tmp out ra = Inr s3"
    and m3: "\<And>l. map_of s3 l = (if ra \<and> l \<in> pdf_loc tmp ` {..<n} then None
                               else if l = locate out then Some ?X else map_of s2 l)"
    by blast
  have "locate out \<notin> pdf_loc tmp ` {..<n}" using o1 by blast
  then have out3: "map_of s3 (locate out) = Some ?X" by (simp add: m3)
  have ms: "mset (map ?pg ks) = mset (map ?P [0..<n])"
  proof -
    have "mset (map ?pg ks) = mset (map ?pg [0..<n])"
      using mset_upt_of_distinct [OF ks(1) ks(2)] by (metis mset_map)
    also have "map ?pg [0..<n] = map ?P js" by (rule map_nth_of [OF js(3)])
    also have "mset (map ?P js) = mset (map ?P [0..<n])"
      using mset_upt_of_distinct [OF js(1) js(2)] by (metis mset_map)
    finally show ?thesis .
  qed
  have ex: "map ?pg ks = map ?P [0..<n]" if n: "n \<le> 10"
  proof -
    have e1: "map ?pp [0..<n] = map (\<lambda>j. pre @ png_name j) [0..<n]"
      by (rule map_cong) (simp_all add: pre [OF proper_png_name])
    have "sorted (map ?pp [0..<n])" unfolding e1 by (rule names_sorted(1) [OF n])
    then have j: "js = [0..<n]" by (rule jso)
    have e2: "map ?tp [0..<n] = map (\<lambda>j. pre @ tmp_name j) [0..<n]"
      by (rule map_cong) (simp_all add: pre [OF proper_tmp_name])
    have "sorted (map ?tp [0..<n])" unfolding e2 by (rule names_sorted(2) [OF n])
    then have k: "ks = [0..<n]" by (rule kso)
    show ?thesis unfolding j k by (rule map_cong) simp_all
  qed
  have frame: "\<forall>l. l \<noteq> locate out \<longrightarrow> l \<notin> pdf_loc tmp ` {..<n} \<longrightarrow> l \<notin> png_loc tmp ` {..<n}
            \<longrightarrow> map_of s3 l = map_of s1 l"
    using fr2 by (simp add: m3)
  show ?thesis using i2p mg out3 ms ex frame by blast
qed

section \<open>The two rasterizing stages\<close>

lemma save_pages_noblur:
  "\<exists>s'. save_pages B (s, g) folder False ksize sigma pjs = Inr (s', g)"
proof (induction pjs arbitrary: s)
  case Nil
  then show ?case by simp
next
  case (Cons a rest)
  obtain p j where a: "a = (p, j)" by (cases a)
  show ?case using Cons.IH
    by (simp add: a Let_def write_file_def png_output_is_file)
qed

lemma not_in_scratch:
  assumes "map_of s l \<noteq> None"
    and "glob_star s tmp ''.png'' = []" and "glob_star s tmp ''.pdf'' = []"
  shows "l \<noteq> png_loc tmp j \<and> l \<noteq> pdf_loc tmp k"
proof -
  have "l \<noteq> png_loc tmp j"
  proof
    assume "l = png_loc tmp j"
    then have "png_name j \<in> set (listdir s tmp)"
      using assms(1) by (simp add: in_listdir png_loc_def)
    then show False using glob_empty_names [OF assms(2)] fnmatch_png_name by blast
  qed
  moreover have "l \<noteq> pdf_loc tmp k"
  proof
    assume "l = pdf_loc tmp k"
    then have "tmp_name k \<in> set (listdir s tmp)"
      using assms(1) by (simp add: in_listdir pdf_loc_def)
    then show False using glob_empty_names [OF assms(3)] fnmatch_tmp_name by blast
  qed
  ultimately show ?thesis by simp
qed

text \<open>
  After rasterizing into a scratch folder that held no page image and no PDF,
  recomposing and merging return; the document at the stage's output path has the pages
  of the images that rasterizing left, and the input document is still in its place.
\<close>

lemma after_rasterizing:
  assumes ds: "distinct (map fst s)"
    and em: "glob_star s tmp ''.png'' = []"
    and ep: "glob_star s tmp ''.pdf'' = []"
    and rd: "read_pdf s input_pdf = Inr d"
    and run: "pdf_to_image render B (s, g) input_pdf tmp dpi blur ksize sigma = Inr (s1, g1)"
    and sfx: "sfx \<noteq> []" "sep \<notin> set sfx" "CHR ''.'' \<notin> set sfx"
      "last sfx = CHR ''f'' \<or> last sfx = CHR ''d''"
  shows "\<exists>img s2 s3 pgs.
        (\<forall>j < length (pages d).
           if blur then \<exists>g0 g1. blur_image B g0 (render dpi (pages d ! j)) ksize sigma
                                   = Inr (img j, g1)
           else img j = render dpi (pages d ! j))
      \<and> image_to_pdf s1 tmp tmp orientation ra = Inr s2
      \<and> merge_pdfs s2 tmp (path_join output_folder (file_name input_pdf @ sfx @ ''.pdf'')) ra
          = Inr s3
      \<and> map_of s3 (locate (path_join output_folder (file_name input_pdf @ sfx @ ''.pdf'')))
          = Some (PdfFile \<lparr>pages = pgs, metadata = [], encrypted = None\<rparr>)
      \<and> mset pgs = mset (map (\<lambda>j. image_page orientation (img j)) [0..<length (pages d)])
      \<and> (length (pages d) \<le> 10 \<longrightarrow>
           pgs = map (\<lambda>j. image_page orientation (img j)) [0..<length (pages d)])
      \<and> map_of s3 (locate input_pdf) = Some (PdfFile d)"
proof -
  let ?n = "length (pages d)"
  let ?out = "path_join output_folder (file_name input_pdf @ sfx @ ''.pdf'')"
  note eff = pdf_to_image_effect [OF run rd]
  have e1: "\<And>l. l \<notin> png_loc tmp ` {..<?n} \<Longrightarrow> map_of s1 l = map_of s l"
    using eff by blast
  have d1: "distinct (map fst s1)" using eff ds by blast
  have "\<forall>j. \<exists>i. j < ?n \<longrightarrow> map_of s1 (png_loc tmp j) = Some (PngFile i)
           \<and> (if blur then \<exists>g0 g1. blur_image B g0 (render dpi (pages d ! j)) ksize sigma
                                     = Inr (i, g1)
               else i = render dpi (pages d ! j))"
    using pdf_to_image_content [OF run rd] by blast
  then obtain img where img: "\<And>j. j < ?n \<Longrightarrow> map_of s1 (png_loc tmp j) = Some (PngFile (img j))"
    and rel: "\<And>j. j < ?n \<Longrightarrow>
           (if blur then \<exists>g0 g1. blur_image B g0 (render dpi (pages d ! j)) ksize sigma
                                     = Inr (img j, g1)
               else img j = render dpi (pages d ! j))"
    using choice [of "\<lambda>j i. j < ?n \<longrightarrow> map_of s1 (png_loc tmp j) = Some (PngFile i)
           \<and> (if blur then \<exists>g0 g1. blur_image B g0 (render dpi (pages d ! j)) ksize sigma
                                     = Inr (i, g1)
               else i = render dpi (pages d ! j))"]
    by blast
  have e2: "\<And>j. j < ?n \<Longrightarrow> map_of s1 (png_loc tmp j) \<noteq> None" using img by simp
  note nm = names_after_rasterizing [of tmp ?n s1 s, OF e1 e2 em ep]
  have fo: "is_file_path ?out"
    by (rule is_file_path_join [OF proper_stage_name [OF sfx(1-3)]])
  have o1: "\<And>k. locate ?out \<noteq> pdf_loc tmp k" and o2: "\<And>j. locate ?out \<noteq> png_loc tmp j"
    using stage_out_not_scratch [OF sfx] by blast+
  obtain s2 s3 pgs where i2p: "image_to_pdf s1 tmp tmp orientation ra = Inr s2"
    and mg: "merge_pdfs s2 tmp ?out ra = Inr s3"
    and out3: "map_of s3 (locate ?out) = Some (PdfFile \<lparr>pages = pgs, metadata = [], encrypted = None\<rparr>)"
    and ms: "mset pgs = mset (map (\<lambda>j. image_page orientation (img j)) [0..<?n])"
    and ex: "?n \<le> 10 \<longrightarrow> pgs = map (\<lambda>j. image_page orientation (img j)) [0..<?n]"
    and fr: "\<And>l. l \<noteq> locate ?out \<Longrightarrow> l \<notin> pdf_loc tmp ` {..<?n} \<Longrightarrow> l \<notin> png_loc tmp ` {..<?n}
            \<Longrightarrow> map_of s3 l = map_of s1 l"
    using recompose [OF d1 img nm(1) nm(2) fo o1 o2, of orientation ra] by blast
  have fi: "is_file_path input_pdf" using rd by (rule read_pdf_is_file)
  have mi: "map_of s (locate input_pdf) = Some (PdfFile d)"
    using rd fi by (auto simp: read_pdf_def read_file_def split: option.splits stored.splits)
  have ni: "\<And>j k. locate input_pdf \<noteq> png_loc tmp j \<and> locate input_pdf \<noteq> pdf_loc tmp k"
    using not_in_scratch [OF _ em ep] mi by simp
  have "locate input_pdf \<noteq> locate ?out"
    using stage_output_not_input [OF fi sfx(1-3), of output_folder] by metis
  moreover have "locate input_pdf \<notin> pdf_loc tmp ` {..<?n}" using ni by blast
  moreover have np: "locate input_pdf \<notin> png_loc tmp ` {..<?n}" using ni by blast
  ultimately have "map_of s3 (locate input_pdf) = map_of s1 (locate input_pdf)" by (rule fr)
  then have in3: "map_of s3 (locate input_pdf) = Some (PdfFile d)" using e1 [OF np] mi by simp
  have "\<forall>j < ?n. if blur then \<exists>g0 g1. blur_image B g0 (render dpi (pages d ! j)) ksize sigma
                                   = Inr (img j, g1)
           else img j = render dpi (pages d ! j)"
    using rel by blast
  then show ?thesis using i2p mg out3 ms ex in3 by blast
qed

lemma pages_of_images:
  assumes "\<forall>j < length ps. img j = f (ps ! j)"
  shows "map (\<lambda>j. P (img j)) [0..<length ps] = map (\<lambda>p. P (f p)) ps"
  using assms by (auto intro!: nth_equalityI)

lemma flatten_path:
  "pdf_to_image_to_pdf render B st input_pdf tmp output_folder orientation ro ra = Inr (x, out)
   \<Longrightarrow> out = im2pdf_path input_pdf output_folder"
  by (auto simp: pdf_to_image_to_pdf_def Let_def split: sum.splits prod.splits if_splits)

text \<open>
  Flattening a readable document through a scratch folder that holds no page image and
  no PDF returns, and the document at the returned path has the pages of the input,
  each drawn as its image at 100 dots per inch: all of them, each once, and in the
  input's order when there are at most ten.
\<close>

lemma flatten_output:
  assumes ds: "distinct (map fst s)"
    and em: "glob_star s tmp ''.png'' = []"
    and ep: "glob_star s tmp ''.pdf'' = []"
    and rd: "read_pdf s input_pdf = Inr d"
  shows "\<exists>s' d'. pdf_to_image_to_pdf render B (s, g) input_pdf tmp output_folder orientation
                    ro ra = Inr ((s', g), im2pdf_path input_pdf output_folder)
       \<and> read_pdf s' (im2pdf_path input_pdf output_folder) = Inr d'
       \<and> mset (pages d') = mset (map (\<lambda>p. image_page orientation (render 100 p)) (pages d))
       \<and> (length (pages d) \<le> 10 \<longrightarrow>
            pages d' = map (\<lambda>p. image_page orientation (render 100 p)) (pages d))"
proof -
  let ?n = "length (pages d)"
  let ?out = "im2pdf_path input_pdf output_folder"
  have oe: "?out = path_join output_folder (file_name input_pdf @ ''_im2pdf'' @ ''.pdf'')"
    by (simp add: im2pdf_path_def)
  obtain s1 where run: "pdf_to_image render B (s, g) input_pdf tmp 100 False (5, 5) 1 = Inr (s1, g)"
    using save_pages_noblur [of B s g tmp "(5, 5)" 1] rd
    by (auto simp: pdf_to_image_def convert_from_path_def)
  have sfx: "''_im2pdf'' \<noteq> []" "sep \<notin> set ''_im2pdf''" "CHR ''.'' \<notin> set ''_im2pdf''"
      "last ''_im2pdf'' = CHR ''f'' \<or> last ''_im2pdf'' = CHR ''d''"
    by (simp_all add: sep_def)
  obtain img s2 s3 pgs where
    rel: "\<forall>j < ?n. if False then \<exists>g0 g1. blur_image B g0 (render 100 (pages d ! j)) (5, 5) 1
                                   = Inr (img j, g1)
           else img j = render 100 (pages d ! j)"
    and i2p: "image_to_pdf s1 tmp tmp orientation ra = Inr s2"
    and mg: "merge_pdfs s2 tmp ?out ra = Inr s3"
    and out3: "map_of s3 (locate ?out) = Some (PdfFile \<lparr>pages = pgs, metadata = [], encrypted = None\<rparr>)"
    and ms: "mset pgs = mset (map (\<lambda>j. image_page orientation (img j)) [0..<?n])"
    and ex: "?n \<le> 10 \<longrightarrow> pgs = map (\<lambda>j. image_page orientation (img j)) [0..<?n]"
    and in3: "map_of s3 (locate input_pdf) = Some (PdfFile d)"
    using after_rasterizing [OF ds em ep rd run sfx, of orientation ra output_folder]
    unfolding oe by blast
  have im: "\<forall>j < ?n. img j = render 100 (pages d ! j)" using rel by simp
  have pe: "map (\<lambda>j. image_page orientation (img j)) [0..<?n]
      = map (\<lambda>p. image_page orientation (render 100 p)) (pages d)"
    using pages_of_images [OF im] .
  have fi: "is_file_path input_pdf" using rd by (rule read_pdf_is_file)
  have fo: "is_file_path ?out"
    unfolding oe by (rule is_file_path_join [OF proper_stage_name [OF sfx(1-3)]])
  have ne: "locate ?out \<noteq> locate input_pdf"
    unfolding oe by (rule stage_output_not_input [OF fi sfx(1-3)])
  let ?X = "\<lparr>pages = pgs, metadata = [], encrypted = None\<rparr>"
  have "\<exists>s'. pdf_to_image_to_pdf render B (s, g) input_pdf tmp output_folder orientation ro ra
               = Inr ((s', g), ?out)
          \<and> map_of s' (locate ?out) = Some (PdfFile ?X)"
  proof (cases ro)
    case True
    have "os_remove s3 input_pdf = Inr (AList.delete (locate input_pdf) s3)"
      using fi in3 by (simp add: os_remove_def)
    then have "pdf_to_image_to_pdf render B (s, g) input_pdf tmp output_folder orientation ro ra
               = Inr ((AList.delete (locate input_pdf) s3, g), ?out)"
      using True run i2p mg by (simp add: pdf_to_image_to_pdf_def Let_def)
    moreover have "map_of (AList.delete (locate input_pdf) s3) (locate ?out) = Some (PdfFile ?X)"
      using out3 ne by (simp add: delete_conv')
    ultimately show ?thesis by blast
  next
    case False
    then have "pdf_to_image_to_pdf render B (s, g) input_pdf tmp output_folder orientation ro ra
               = Inr ((s3, g), ?out)"
      using run i2p mg by (simp add: pdf_to_image_to_pdf_def Let_def)
    then show ?thesis using out3 by blast
  qed
  then obtain s' where r: "pdf_to_image_to_pdf render B (s, g) input_pdf tmp output_folder
        orientation ro ra = Inr ((s', g), ?out)"
    and o: "map_of s' (locate ?out) = Some (PdfFile ?X)" by blast
  have "read_pdf s' ?out = Inr ?X" using o fo by (simp add: read_pdf_def read_file_def)
  then show ?thesis using r ms ex unfolding pe by force
qed

lemma blur_output:
  assumes ds: "distinct (map fst s)"
    and em: "glob_star s tmp ''.png'' = []"
    and ep: "glob_star s tmp ''.pdf'' = []"
    and rd: "read_pdf s input_pdf = Inr d"
    and run: "blur_pages_of_pdf render B (s, g) input_pdf orientation tmp output_folder dpi
                ksize sigma ra = Inr ((s', g'), out)"
  shows "out = blurred_path input_pdf output_folder
       \<and> (\<exists>imgs d'. length imgs = length (pages d)
             \<and> (\<forall>j < length (pages d).
                   \<exists>g0 g1. blur_image B g0 (render dpi (pages d ! j)) ksize sigma
                             = Inr (imgs ! j, g1))
             \<and> read_pdf s' out = Inr d'
             \<and> mset (pages d') = mset (map (image_page orientation) imgs)
             \<and> (length (pages d) \<le> 10 \<longrightarrow> pages d' = map (image_page orientation) imgs))"
proof -
  let ?n = "length (pages d)"
  let ?out = "blurred_path input_pdf output_folder"
  have oe: "?out = path_join output_folder (file_name input_pdf @ ''_blurred'' @ ''.pdf'')"
    by (simp add: blurred_path_def)
  obtain s1 g1 where r1: "pdf_to_image render B (s, g) input_pdf tmp dpi True ksize sigma = Inr (s1, g1)"
    using run by (auto simp: blur_pages_of_pdf_def Let_def split: sum.splits)
  have sfx: "''_blurred'' \<noteq> []" "sep \<notin> set ''_blurred''" "CHR ''.'' \<notin> set ''_blurred''"
      "last ''_blurred'' = CHR ''f'' \<or> last ''_blurred'' = CHR ''d''"
    by (simp_all add: sep_def)
  obtain img s2 s3 pgs where
    rel: "\<forall>j < ?n. if True then \<exists>g0 g1. blur_image B g0 (render dpi (pages d ! j)) ksize sigma
                                   = Inr (img j, g1)
           else img j = render dpi (pages d ! j)"
    and i2p: "image_to_pdf s1 tmp tmp orientation ra = Inr s2"
    and mg: "merge_pdfs s2 tmp ?out ra = Inr s3"
    and out3: "map_of s3 (locate ?out) = Some (PdfFile \<lparr>pages = pgs, metadata = [], encrypted = None\<rparr>)"
    and ms: "mset pgs = mset (map (\<lambda>j. image_page orientation (img j)) [0..<?n])"
    and ex: "?n \<le> 10 \<longrightarrow> pgs = map (\<lambda>j. image_page orientation (img j)) [0..<?n]"
    using after_rasterizing [OF ds em ep rd r1 sfx, of orientation ra output_folder]
    unfolding oe by blast
  have res: "s' = s3" "out = ?out"
    using run r1 i2p mg by (simp_all add: blur_pages_of_pdf_def Let_def)
  have fo: "is_file_path ?out"
    unfolding oe by (rule is_file_path_join [OF proper_stage_name [OF sfx(1-3)]])
  let ?imgs = "map img [0..<?n]"
  have pe: "map (\<lambda>j. image_page orientation (img j)) [0..<?n] = map (image_page orientation) ?imgs"
    by simp
  have a: "length ?imgs = ?n" by simp
  have b: "\<forall>j < ?n. \<exists>g0 g1. blur_image B g0 (render dpi (pages d ! j)) ksize sigma
                             = Inr (?imgs ! j, g1)"
    using rel by simp
  have c: "read_pdf s' out = Inr \<lparr>pages = pgs, metadata = [], encrypted = None\<rparr>"
    using out3 fo res by (simp add: read_pdf_def read_file_def)
  have "\<exists>imgs d'. length imgs = ?n
             \<and> (\<forall>j < ?n. \<exists>g0 g1. blur_image B g0 (render dpi (pages d ! j)) ksize sigma
                             = Inr (imgs ! j, g1))
             \<and> read_pdf s' out = Inr d'
             \<and> mset (pages d') = mset (map (image_page orientation) imgs)
             \<and> (?n \<le> 10 \<longrightarrow> pages d' = map (image_page orientation) imgs)"
    using a b c ms ex unfolding pe
    by (intro exI [of _ ?imgs] exI [of _ "\<lparr>pages = pgs, metadata = [], encrypted = None\<rparr>"]) simp
  then show ?thesis using res(2) by blast
qed

text \<open>
  C9. The flattening stage has no resolution among its arguments and rasterizes at 100
  dots per inch whatever is configured elsewhere: its runs are those of a rasterizer
  that always renders at 100, and, through a scratch folder that holds no page image
  and no PDF, it returns a document whose pages are the input's pages drawn as their
  images at 100 dots per inch.
\<close>

theorem flattening_renders_at_100:
  "pdf_to_image_to_pdf render B (s, g) input_pdf tmp_folder output_folder orientation
       remove_original remove_artifacts
     = pdf_to_image_to_pdf (\<lambda>dpi. render 100) B (s, g) input_pdf tmp_folder output_folder
         orientation remove_original remove_artifacts
   \<and> (distinct (map fst s) \<longrightarrow> glob_star s tmp_folder ''.png'' = [] \<longrightarrow>
      glob_star s tmp_folder ''.pdf'' = [] \<longrightarrow> read_pdf s input_pdf = Inr d \<longrightarrow>
      (\<exists>s' d'. pdf_to_image_to_pdf render B (s, g) input_pdf tmp_folder output_folder
                   orientation remove_original remove_artifacts
                 = Inr ((s', g), im2pdf_path input_pdf output_folder)
         \<and> read_pdf s' (im2pdf_path input_pdf output_folder) = Inr d'
         \<and> mset (pages d') = mset (map (\<lambda>p. image_page orientation (render 100 p)) (pages d))
         \<and> (length (pages d) \<le> 10 \<longrightarrow>
              pages d' = map (\<lambda>p. image_page orientation (render 100 p)) (pages d))))"
proof -
  have "pdf_to_image_to_pdf render B (s, g) input_pdf tmp_folder output_folder orientation
       remove_original remove_artifacts
     = pdf_to_image_to_pdf (\<lambda>dpi. render 100) B (s, g) input_pdf tmp_folder output_folder
         orientation remove_original remove_artifacts"
    by (simp add: pdf_to_image_to_pdf_def pdf_to_image_def convert_from_path_def)
  then show ?thesis using flatten_output [of s tmp_folder input_pdf d render B g] by blast
qed

theorem flattening_renders_at_100_witness:
  "distinct (map fst disk) \<and> glob_star disk ''./tmp'' ''.png'' = []
   \<and> glob_star disk ''./tmp'' ''.pdf'' = []
   \<and> read_pdf disk ''./sample_input/lecture1.pdf'' = Inr lecture1
   \<and> (\<exists>s' d'. pdf_to_image_to_pdf dpi_render one_pixel_blur (disk, draws)
                 ''./sample_input/lecture1.pdf'' ''./tmp'' ''./sample_output'' ''landscape''
                 True True
               = Inr ((s', draws), ''./sample_output/lecture1_im2pdf.pdf'')
         \<and> read_pdf s' ''./sample_output/lecture1_im2pdf.pdf'' = Inr d'
         \<and> pages d' = [image_page ''landscape'' (dpi_render 100 (page_of ''one'')),
                        image_page ''landscape'' (dpi_render 100 (page_of ''two''))])
   \<and> dpi_render 100 (page_of ''one'') \<noteq> dpi_render 100 (page_of ''two'')
   \<and> dpi_render 100 (page_of ''one'') \<noteq> dpi_render 72 (page_of ''one'')"
proof -
  have a: "distinct (map fst disk)" by code_simp
  have b: "glob_star disk ''./tmp'' ''.png'' = []" by code_simp
  have c: "glob_star disk ''./tmp'' ''.pdf'' = []" by code_simp
  have e: "read_pdf disk ''./sample_input/lecture1.pdf'' = Inr lecture1" by code_simp
  have p: "im2pdf_path ''./sample_input/lecture1.pdf'' ''./sample_output''
      = ''./sample_output/lecture1_im2pdf.pdf''" by code_simp
  have n: "length (pages lecture1) \<le> 10" by (simp add: lecture1_def)
  have m: "map (\<lambda>p. image_page ''landscape'' (dpi_render 100 p)) (pages lecture1)
      = [image_page ''landscape'' (dpi_render 100 (page_of ''one'')),
         image_page ''landscape'' (dpi_render 100 (page_of ''two''))]"
    by (simp add: lecture1_def)
  have x: "dpi_render 100 (page_of ''one'') \<noteq> dpi_render 100 (page_of ''two'')" by code_simp
  have y: "dpi_render 100 (page_of ''one'') \<noteq> dpi_render 72 (page_of ''one'')" by code_simp
  note t = flattening_renders_at_100 [of dpi_render one_pixel_blur disk draws
      "''./sample_input/lecture1.pdf''" "''./tmp''" "''./sample_output''" "''landscape''"
      True True lecture1, THEN conjunct2, rule_format, OF a b c e]
  have "\<exists>s' d'. pdf_to_image_to_pdf dpi_render one_pixel_blur (disk, draws)
                 ''./sample_input/lecture1.pdf'' ''./tmp'' ''./sample_output'' ''landscape''
                 True True
               = Inr ((s', draws), ''./sample_output/lecture1_im2pdf.pdf'')
         \<and> read_pdf s' ''./sample_output/lecture1_im2pdf.pdf'' = Inr d'
         \<and> pages d' = [image_page ''landscape'' (dpi_render 100 (page_of ''one'')),
                        image_page ''landscape'' (dpi_render 100 (page_of ''two''))]"
    using t n unfolding p m by blast
  then show ?thesis using a b c e x y by blast
qed

section \<open>Facts about the stages run twice\<close>

lemma blur_path:
  "blur_pages_of_pdf render B st input_pdf orientation tmp output_folder dpi ksize sigma ra
     = Inr (x, out)
   \<Longrightarrow> out = blurred_path input_pdf output_folder"
  by (auto simp: blur_pages_of_pdf_def Let_def split: sum.splits prod.splits)

lemma first_archived:
  assumes "\<not> path_exists s (archive_path p folder)"
    and "move_processed_pdf rnd s p folder = Inr s'"
  shows "read_file s' (archive_path p folder) = read_file s p
       \<and> path_exists s' (archive_path p folder)"
proof -
  let ?A = "archive_path p folder"
  have r: "os_rename s p ?A = Inr s'"
    using assms by (simp add: move_processed_pdf_def Let_def)
  then obtain f where f: "is_file_path p" "is_file_path ?A" "map_of s (locate p) = Some f"
      "s' = AList.update (locate ?A) f (AList.delete (locate p) s)"
    by (auto simp: os_rename_def split: if_splits option.splits)
  have "map_of s' (locate ?A) = Some f" by (simp add: f(4) update_conv')
  then show ?thesis using f(1-3) by (simp add: read_file_def path_exists_def)
qed

section \<open>Names that differ after the first dot\<close>

text \<open>
  C8, as the program behaves. Two input paths whose last parts are \<open>n.r1\<close> and \<open>n.r2\<close>,
  with no dot in \<open>n\<close>, have the same file name \<open>n\<close> for every stage, so the paths the
  five stages derive from them are the same. For the four stages that write a
  document (blurring, watermarking, flattening, sealing), a run on the second input
  after a run on the first returns the same path, and the document there is then the
  one made from the second input. The archiving stage finds the first original at the
  path it derives for the second, and so does not replace it: the second original goes
  under the suffixed name and the first stays.
\<close>

theorem same_stem_same_outputs:
  assumes p: "last (split_chr sep p) = n @ ''.'' @ r1"
    and q: "last (split_chr sep q) = n @ ''.'' @ r2"
    and n: "CHR ''.'' \<notin> set n"
  shows "file_name p = n \<and> file_name q = n
    \<and> blurred_path p out = blurred_path q out
    \<and> watermarked_path p out = watermarked_path q out
    \<and> im2pdf_path p out = im2pdf_path q out
    \<and> final_path p out = final_path q out
    \<and> archive_path p arch = archive_path q arch
    \<and> (blur_pages_of_pdf render B stb p ori tmp out dpi ksize sigma ra = Inr ((sb1, gb1), ob1) \<longrightarrow>
        distinct (map fst sb1) \<longrightarrow> glob_star sb1 tmp' ''.png'' = [] \<longrightarrow>
        glob_star sb1 tmp' ''.pdf'' = [] \<longrightarrow> read_pdf sb1 q = Inr db \<longrightarrow>
        blur_pages_of_pdf render' B' (sb1, gb1) q ori' tmp' out dpi' ksize' sigma' ra'
          = Inr ((sb2, gb2), ob2) \<longrightarrow>
        ob2 = ob1 \<and>
        (\<exists>imgs d'. length imgs = length (pages db)
           \<and> (\<forall>j < length (pages db).
                 \<exists>g0 g1. blur_image B' g0 (render' dpi' (pages db ! j)) ksize' sigma'
                           = Inr (imgs ! j, g1))
           \<and> read_pdf sb2 ob1 = Inr d'
           \<and> mset (pages d') = mset (map (image_page ori') imgs)))
    \<and> (add_watermark sw p wm out ro = Inr (sw1, ow1) \<longrightarrow>
        add_watermark sw1 q wm' out ro' = Inr (sw2, ow2) \<longrightarrow>
        ow2 = ow1 \<and>
        (\<exists>d w. read_pdf sw1 q = Inr d \<and> read_pdf sw1 wm' = Inr w \<and>
           read_pdf sw2 ow1 =
             Inr \<lparr>pages = map (\<lambda>pg. mergePage pg (hd (pages w))) (pages d),
                  metadata = [], encrypted = None\<rparr>))
    \<and> (pdf_to_image_to_pdf renderf Bf stf p tmpf out orif rof raf = Inr ((sf1, gf1), of1) \<longrightarrow>
        distinct (map fst sf1) \<longrightarrow> glob_star sf1 tmpf' ''.png'' = [] \<longrightarrow>
        glob_star sf1 tmpf' ''.pdf'' = [] \<longrightarrow> read_pdf sf1 q = Inr df \<longrightarrow>
        (\<exists>sf2 d'. pdf_to_image_to_pdf renderf' Bf' (sf1, gf1) q tmpf' out orif' rof' raf'
                     = Inr ((sf2, gf1), of1)
           \<and> read_pdf sf2 of1 = Inr d'
           \<and> mset (pages d')
               = mset (map (\<lambda>pg. image_page orif' (renderf' 100 pg)) (pages df))))
    \<and> (encrypt_and_add_metadata t1 t2 se p out usr own roe = Inr se1 \<longrightarrow>
        encrypt_and_add_metadata t3 t4 se1 q out usr' own' roe' = Inr se2 \<longrightarrow>
        (\<exists>d. read_pdf se1 q = Inr d \<and>
           read_file se2 (final_path p out) =
             Inr (PdfFile (d\<lparr>metadata := add_metadata t3 t4 (metadata d),
                   encrypted := Some (saved_encryption
                     (pikepdf_Encryption usr' own' seal_permissions))\<rparr>))))
    \<and> (\<not> path_exists sa (archive_path p arch) \<longrightarrow>
        move_processed_pdf rnd1 sa p arch = Inr sa1 \<longrightarrow>
        \<not> path_exists sa1 (exists_path rnd2 q arch) \<longrightarrow>
        locate q \<noteq> locate (archive_path q arch) \<longrightarrow>
        move_processed_pdf rnd2 sa1 q arch = Inr sa2 \<longrightarrow>
        read_file sa1 (archive_path q arch) = read_file sa p
        \<and> read_file sa2 (archive_path q arch) = read_file sa p
        \<and> read_file sa2 (exists_path rnd2 q arch) = read_file sa1 q
        \<and> locate (exists_path rnd2 q arch) \<noteq> locate (archive_path q arch))"
proof -
  have fp: "file_name p = n" using p n by (rule file_name_of_stem)
  have fq: "file_name q = n" using q n by (rule file_name_of_stem)
  have paths: "blurred_path p out = blurred_path q out"
      "watermarked_path p out = watermarked_path q out"
      "im2pdf_path p out = im2pdf_path q out"
      "final_path p out = final_path q out"
      "archive_path p arch = archive_path q arch"
    by (simp_all add: blurred_path_def watermarked_path_def im2pdf_path_def final_path_def
          archive_path_def fp fq)
  have b: "ob2 = ob1 \<and>
        (\<exists>imgs d'. length imgs = length (pages db)
           \<and> (\<forall>j < length (pages db).
                 \<exists>g0 g1. blur_image B' g0 (render' dpi' (pages db ! j)) ksize' sigma'
                           = Inr (imgs ! j, g1))
           \<and> read_pdf sb2 ob1 = Inr d'
           \<and> mset (pages d') = mset (map (image_page ori') imgs))"
    if r1: "blur_pages_of_pdf render B stb p ori tmp out dpi ksize sigma ra = Inr ((sb1, gb1), ob1)"
      and ds: "distinct (map fst sb1)" and em: "glob_star sb1 tmp' ''.png'' = []"
      and ep: "glob_star sb1 tmp' ''.pdf'' = []" and rd: "read_pdf sb1 q = Inr db"
      and r2: "blur_pages_of_pdf render' B' (sb1, gb1) q ori' tmp' out dpi' ksize' sigma' ra'
          = Inr ((sb2, gb2), ob2)"
  proof -
    have o1: "ob1 = blurred_path p out" using r1 by (rule blur_path)
    have "ob2 = blurred_path q out
       \<and> (\<exists>imgs d'. length imgs = length (pages db)
             \<and> (\<forall>j < length (pages db).
                   \<exists>g0 g1. blur_image B' g0 (render' dpi' (pages db ! j)) ksize' sigma'
                             = Inr (imgs ! j, g1))
             \<and> read_pdf sb2 ob2 = Inr d'
             \<and> mset (pages d') = mset (map (image_page ori') imgs)
             \<and> (length (pages db) \<le> 10 \<longrightarrow> pages d' = map (image_page ori') imgs))"
      by (rule blur_output [OF ds em ep rd r2])
    then show ?thesis using o1 paths(1) by auto
  qed
  have w: "ow2 = ow1 \<and>
            (\<exists>d w. read_pdf sw1 q = Inr d \<and> read_pdf sw1 wm' = Inr w \<and>
               read_pdf sw2 ow1 =
                 Inr \<lparr>pages = map (\<lambda>pg. mergePage pg (hd (pages w))) (pages d),
                      metadata = [], encrypted = None\<rparr>)"
    if a: "add_watermark sw p wm out ro = Inr (sw1, ow1)"
      and b: "add_watermark sw1 q wm' out ro' = Inr (sw2, ow2)"
  proof -
    have "ow1 = watermarked_path p out" using add_watermark_output [OF a] by blast
    moreover obtain d w where "read_pdf sw1 q = Inr d" "read_pdf sw1 wm' = Inr w"
        "ow2 = watermarked_path q out"
        "read_pdf sw2 ow2 = Inr \<lparr>pages = map (\<lambda>pg. mergePage pg (hd (pages w))) (pages d),
                      metadata = [], encrypted = None\<rparr>"
      using add_watermark_output [OF b] by blast
    ultimately show ?thesis using paths(2) by auto
  qed
  have f: "\<exists>sf2 d'. pdf_to_image_to_pdf renderf' Bf' (sf1, gf1) q tmpf' out orif' rof' raf'
                     = Inr ((sf2, gf1), of1)
           \<and> read_pdf sf2 of1 = Inr d'
           \<and> mset (pages d')
               = mset (map (\<lambda>pg. image_page orif' (renderf' 100 pg)) (pages df))"
    if r1: "pdf_to_image_to_pdf renderf Bf stf p tmpf out orif rof raf = Inr ((sf1, gf1), of1)"
      and ds: "distinct (map fst sf1)" and em: "glob_star sf1 tmpf' ''.png'' = []"
      and ep: "glob_star sf1 tmpf' ''.pdf'' = []" and rd: "read_pdf sf1 q = Inr df"
  proof -
    have o1: "of1 = im2pdf_path q out" using flatten_path [OF r1] paths(3) by simp
    show ?thesis
      using flatten_output [OF ds em ep rd, of renderf' Bf' gf1 out orif' rof' raf']
      unfolding o1 by blast
  qed
  have e: "\<exists>d. read_pdf se1 q = Inr d \<and>
               read_file se2 (final_path p out) =
                 Inr (PdfFile (d\<lparr>metadata := add_metadata t3 t4 (metadata d),
                       encrypted := Some (saved_encryption
                         (pikepdf_Encryption usr' own' seal_permissions))\<rparr>))"
    if b: "encrypt_and_add_metadata t3 t4 se1 q out usr' own' roe' = Inr se2"
    using encrypt_output [OF b] paths(4) by simp
  have a: "read_file sa1 (archive_path q arch) = read_file sa p
        \<and> read_file sa2 (archive_path q arch) = read_file sa p
        \<and> read_file sa2 (exists_path rnd2 q arch) = read_file sa1 q
        \<and> locate (exists_path rnd2 q arch) \<noteq> locate (archive_path q arch)"
    if free1: "\<not> path_exists sa (archive_path p arch)"
      and m1: "move_processed_pdf rnd1 sa p arch = Inr sa1"
      and free2: "\<not> path_exists sa1 (exists_path rnd2 q arch)"
      and other: "locate q \<noteq> locate (archive_path q arch)"
      and m2: "move_processed_pdf rnd2 sa1 q arch = Inr sa2"
  proof -
    have 1: "read_file sa1 (archive_path q arch) = read_file sa p"
      and ex: "path_exists sa1 (archive_path q arch)"
      using first_archived [OF free1 m1] paths(5) by simp_all
    show ?thesis using move_keeps_archived [OF ex free2 other m2] 1 by simp
  qed
  show ?thesis using fp fq paths b w f e a by blast
qed

theorem same_stem_same_outputs_witness:
  "file_name ''./sample_input/a.v1.pdf'' = ''a'' \<and> file_name ''./sample_input/a.v2.pdf'' = ''a''
   \<and> \<not> isl blurred_v1 \<and> \<not> isl blurred_v2
   \<and> snd (projr blurred_v2) = snd (projr blurred_v1)
   \<and> (\<exists>imgs d'. length imgs = length (pages older1)
         \<and> (\<forall>j < length (pages older1).
               \<exists>g0 g1. blur_image one_pixel_blur g0 (dpi_render 100 (pages older1 ! j)) (5, 5) 1
                         = Inr (imgs ! j, g1))
         \<and> read_pdf (fst (fst (projr blurred_v2))) (snd (projr blurred_v1)) = Inr d'
         \<and> mset (pages d') = mset (map (image_page ''landscape'') imgs))
   \<and> \<not> isl watermarked_v1 \<and> \<not> isl watermarked_v2
   \<and> snd (projr watermarked_v2) = snd (projr watermarked_v1)
   \<and> read_pdf (fst (projr watermarked_v2)) (snd (projr watermarked_v1)) =
        Inr \<lparr>pages = map (\<lambda>pg. mergePage pg (hd (pages watermark_A4))) (pages older1),
             metadata = [], encrypted = None\<rparr>
   \<and> \<not> isl flattened_v1
   \<and> (\<exists>sf2 d'. pdf_to_image_to_pdf dpi_render one_pixel_blur (fst (projr flattened_v1))
                   ''./sample_input/a.v2.pdf'' ''./tmp'' ''./sample_output'' ''landscape''
                   False True
                 = Inr ((sf2, snd (fst (projr flattened_v1))), snd (projr flattened_v1))
         \<and> read_pdf sf2 (snd (projr flattened_v1)) = Inr d'
         \<and> mset (pages d')
             = mset (map (\<lambda>pg. image_page ''landscape'' (dpi_render 100 pg)) (pages older1)))
   \<and> \<not> isl sealed_v1 \<and> \<not> isl sealed_v2
   \<and> read_file (projr sealed_v2) (final_path ''./sample_input/a.v1.pdf'' ''./sample_output'') =
        Inr (PdfFile (older1\<lparr>metadata := add_metadata ''2020-01-10T10:00:02''
                                ''2020-01-10T10:00:03'' (metadata older1),
              encrypted := Some (saved_encryption
                (pikepdf_Encryption [] ''your_pass'' seal_permissions))\<rparr>))
   \<and> \<not> isl archived_v1 \<and> \<not> isl archived_v2
   \<and> read_file (projr archived_v1) (archive_path ''./sample_input/a.v2.pdf'' ''./processed'')
        = Inr (PdfFile lecture1)
   \<and> read_file (projr archived_v2) (archive_path ''./sample_input/a.v2.pdf'' ''./processed'')
        = Inr (PdfFile lecture1)
   \<and> read_file (projr archived_v2) (exists_path 5 ''./sample_input/a.v2.pdf'' ''./processed'')
        = Inr (PdfFile older1)"
proof -
  have a: "last (split_chr sep ''./sample_input/a.v1.pdf'') = ''a'' @ ''.'' @ ''v1.pdf''"
    by code_simp
  have b: "last (split_chr sep ''./sample_input/a.v2.pdf'') = ''a'' @ ''.'' @ ''v2.pdf''"
    by code_simp
  have c: "CHR ''.'' \<notin> set ''a''" by simp
  note t = same_stem_same_outputs [OF a b c, where out = "''./sample_output''"
      and arch = "''./processed''"]
  have names: "file_name ''./sample_input/a.v1.pdf'' = ''a''"
      "file_name ''./sample_input/a.v2.pdf'' = ''a''"
    using t by simp_all
  have b1: "\<not> isl blurred_v1" by code_simp
  have b2: "\<not> isl blurred_v2" by code_simp
  have br1: "blur_pages_of_pdf dpi_render one_pixel_blur (versions_in, draws)
       ''./sample_input/a.v1.pdf'' ''landscape'' ''./tmp'' ''./sample_output'' 100 (5, 5) 1 True
       = Inr ((fst (fst (projr blurred_v1)), snd (fst (projr blurred_v1))), snd (projr blurred_v1))"
    using b1 unfolding blurred_v1_def by simp
  have br2: "blur_pages_of_pdf dpi_render one_pixel_blur
       (fst (fst (projr blurred_v1)), snd (fst (projr blurred_v1)))
       ''./sample_input/a.v2.pdf'' ''landscape'' ''./tmp'' ''./sample_output'' 100 (5, 5) 1 True
       = Inr ((fst (fst (projr blurred_v2)), snd (fst (projr blurred_v2))), snd (projr blurred_v2))"
    using b2 unfolding blurred_v2_def by simp
  have bd: "distinct (map fst (fst (fst (projr blurred_v1))))" by code_simp
  have bg: "glob_star (fst (fst (projr blurred_v1))) ''./tmp'' ''.png'' = []" by code_simp
  have bp: "glob_star (fst (fst (projr blurred_v1))) ''./tmp'' ''.pdf'' = []" by code_simp
  have bq: "read_pdf (fst (fst (projr blurred_v1))) ''./sample_input/a.v2.pdf'' = Inr older1"
    by code_simp
  note tb = t [THEN conjunct2, THEN conjunct2, THEN conjunct2, THEN conjunct2, THEN conjunct2,
    THEN conjunct2, THEN conjunct2, THEN conjunct1, rule_format, OF br1 bd bg bp bq br2]
  have w1: "\<not> isl watermarked_v1" by code_simp
  have w2: "\<not> isl watermarked_v2" by code_simp
  have wr1: "add_watermark versions_in ''./sample_input/a.v1.pdf''
       ''./watermarks/landscape_A4.pdf'' ''./sample_output'' False
       = Inr (fst (projr watermarked_v1), snd (projr watermarked_v1))"
    using w1 unfolding watermarked_v1_def by simp
  have wr2: "add_watermark (fst (projr watermarked_v1)) ''./sample_input/a.v2.pdf''
       ''./watermarks/landscape_A4.pdf'' ''./sample_output'' False
       = Inr (fst (projr watermarked_v2), snd (projr watermarked_v2))"
    using w2 unfolding watermarked_v2_def by simp
  have wq: "read_pdf (fst (projr watermarked_v1)) ''./sample_input/a.v2.pdf'' = Inr older1"
    by code_simp
  have ww: "read_pdf (fst (projr watermarked_v1)) ''./watermarks/landscape_A4.pdf''
      = Inr watermark_A4"
    by code_simp
  note tw = t [THEN conjunct2, THEN conjunct2, THEN conjunct2, THEN conjunct2, THEN conjunct2,
    THEN conjunct2, THEN conjunct2, THEN conjunct2, THEN conjunct1, rule_format, OF wr1 wr2]
  have tw': "read_pdf (fst (projr watermarked_v2)) (snd (projr watermarked_v1)) =
        Inr \<lparr>pages = map (\<lambda>pg. mergePage pg (hd (pages watermark_A4))) (pages older1),
             metadata = [], encrypted = None\<rparr>"
    using tw wq ww by auto
  have f1: "\<not> isl flattened_v1" by code_simp
  have fr1: "pdf_to_image_to_pdf dpi_render one_pixel_blur (versions_in, draws)
       ''./sample_input/a.v1.pdf'' ''./tmp'' ''./sample_output'' ''landscape'' False True
       = Inr ((fst (fst (projr flattened_v1)), snd (fst (projr flattened_v1))),
              snd (projr flattened_v1))"
    using f1 unfolding flattened_v1_def by simp
  have fd: "distinct (map fst (fst (fst (projr flattened_v1))))" by code_simp
  have fg: "glob_star (fst (fst (projr flattened_v1))) ''./tmp'' ''.png'' = []" by code_simp
  have fp: "glob_star (fst (fst (projr flattened_v1))) ''./tmp'' ''.pdf'' = []" by code_simp
  have fq: "read_pdf (fst (fst (projr flattened_v1))) ''./sample_input/a.v2.pdf'' = Inr older1"
    by code_simp
  note tf = t [THEN conjunct2, THEN conjunct2, THEN conjunct2, THEN conjunct2, THEN conjunct2,
    THEN conjunct2, THEN conjunct2, THEN conjunct2, THEN conjunct2, THEN conjunct1,
    rule_format, OF fr1 fd fg fp fq, where renderf' = dpi_render and Bf' = one_pixel_blur
      and orif' = "''landscape''" and rof' = False and raf' = True]
  have s1: "\<not> isl sealed_v1" by code_simp
  have s2: "\<not> isl sealed_v2" by code_simp
  have sr1: "encrypt_and_add_metadata ''2020-01-10T10:00:00'' ''2020-01-10T10:00:01''
       versions_in ''./sample_input/a.v1.pdf'' ''./sample_output'' [] ''your_pass'' True
       = Inr (projr sealed_v1)"
    using s1 unfolding sealed_v1_def by simp
  have sr2: "encrypt_and_add_metadata ''2020-01-10T10:00:02'' ''2020-01-10T10:00:03''
       (projr sealed_v1) ''./sample_input/a.v2.pdf'' ''./sample_output'' [] ''your_pass'' True
       = Inr (projr sealed_v2)"
    using s2 unfolding sealed_v2_def by simp
  have sq: "read_pdf (projr sealed_v1) ''./sample_input/a.v2.pdf'' = Inr older1" by code_simp
  note ts = t [THEN conjunct2, THEN conjunct2, THEN conjunct2, THEN conjunct2, THEN conjunct2,
    THEN conjunct2, THEN conjunct2, THEN conjunct2, THEN conjunct2, THEN conjunct2,
    THEN conjunct1, rule_format, OF sr1 sr2]
  have ts': "read_file (projr sealed_v2)
        (final_path ''./sample_input/a.v1.pdf'' ''./sample_output'') =
        Inr (PdfFile (older1\<lparr>metadata := add_metadata ''2020-01-10T10:00:02''
                                ''2020-01-10T10:00:03'' (metadata older1),
              encrypted := Some (saved_encryption
                (pikepdf_Encryption [] ''your_pass'' seal_permissions))\<rparr>))"
    using ts sq by auto
  have a1: "\<not> isl archived_v1" by code_simp
  have a2: "\<not> isl archived_v2" by code_simp
  have ar1: "move_processed_pdf 5 versions_in ''./sample_input/a.v1.pdf'' ''./processed''
       = Inr (projr archived_v1)"
    using a1 unfolding archived_v1_def by simp
  have ar2: "move_processed_pdf 5 (projr archived_v1) ''./sample_input/a.v2.pdf'' ''./processed''
       = Inr (projr archived_v2)"
    using a2 unfolding archived_v2_def by simp
  have af1: "\<not> path_exists versions_in (archive_path ''./sample_input/a.v1.pdf'' ''./processed'')"
    by code_simp
  have af2: "\<not> path_exists (projr archived_v1)
       (exists_path 5 ''./sample_input/a.v2.pdf'' ''./processed'')"
    by code_simp
  have ao: "locate ''./sample_input/a.v2.pdf''
       \<noteq> locate (archive_path ''./sample_input/a.v2.pdf'' ''./processed'')"
    by code_simp
  have av1: "read_file versions_in ''./sample_input/a.v1.pdf'' = Inr (PdfFile lecture1)"
    by code_simp
  have av2: "read_file (projr archived_v1) ''./sample_input/a.v2.pdf'' = Inr (PdfFile older1)"
    by code_simp
  note ta = t [THEN conjunct2, THEN conjunct2, THEN conjunct2, THEN conjunct2, THEN conjunct2,
    THEN conjunct2, THEN conjunct2, THEN conjunct2, THEN conjunct2, THEN conjunct2,
    THEN conjunct2, rule_format, OF af1 ar1 af2 ao ar2]
  have ta': "read_file (projr archived_v1)
          (archive_path ''./sample_input/a.v2.pdf'' ''./processed'') = Inr (PdfFile lecture1)"
      "read_file (projr archived_v2)
          (archive_path ''./sample_input/a.v2.pdf'' ''./processed'') = Inr (PdfFile lecture1)"
      "read_file (projr archived_v2)
          (exists_path 5 ''./sample_input/a.v2.pdf'' ''./processed'') = Inr (PdfFile older1)"
    using ta av1 av2 by simp_all
  have tb1: "snd (projr blurred_v2) = snd (projr blurred_v1)" using tb by simp
  have tb2: "\<exists>imgs d'. length imgs = length (pages older1)
         \<and> (\<forall>j < length (pages older1).
               \<exists>g0 g1. blur_image one_pixel_blur g0 (dpi_render 100 (pages older1 ! j)) (5, 5) 1
                         = Inr (imgs ! j, g1))
         \<and> read_pdf (fst (fst (projr blurred_v2))) (snd (projr blurred_v1)) = Inr d'
         \<and> mset (pages d') = mset (map (image_page ''landscape'') imgs)"
    using tb by (rule conjunct2)
  have tw1: "snd (projr watermarked_v2) = snd (projr watermarked_v1)" using tw by simp
  have tf': "\<exists>sf2 d'. pdf_to_image_to_pdf dpi_render one_pixel_blur (fst (projr flattened_v1))
                   ''./sample_input/a.v2.pdf'' ''./tmp'' ''./sample_output'' ''landscape''
                   False True
                 = Inr ((sf2, snd (fst (projr flattened_v1))), snd (projr flattened_v1))
         \<and> read_pdf sf2 (snd (projr flattened_v1)) = Inr d'
         \<and> mset (pages d')
             = mset (map (\<lambda>pg. image_page ''landscape'' (dpi_render 100 pg)) (pages older1))"
    using tf by simp
  show ?thesis
    using names b1 b2 tb1 tb2 w1 w2 tw1 tw' f1 tf' s1 s2 ts' a1 a2 ta' by blast
qed

text \<open>
  The archiving stage does not replace: after \<open>a.v1.pdf\<close> and then \<open>a.v2.pdf\<close> are
  archived into an empty folder, both runs return, the file at the shared path
  \<open>processed/a.pdf\<close> is still the first original, and the second original is at
  \<open>processed/a_exists_5.pdf\<close>.
\<close>

theorem archiving_keeps_first_version:
  "archive_path ''./sample_input/a.v1.pdf'' ''./processed''
     = archive_path ''./sample_input/a.v2.pdf'' ''./processed''
   \<and> archive_path ''./sample_input/a.v2.pdf'' ''./processed'' = ''./processed/a.pdf''
   \<and> read_pdf versions_in ''./sample_input/a.v1.pdf'' = Inr lecture1
   \<and> read_pdf versions_in ''./sample_input/a.v2.pdf'' = Inr older1
   \<and> lecture1 \<noteq> older1
   \<and> \<not> isl archived_v1 \<and> \<not> isl archived_v2
   \<and> read_pdf (projr archived_v1) ''./processed/a.pdf'' = Inr lecture1
   \<and> read_pdf (projr archived_v2) ''./processed/a.pdf'' = Inr lecture1
   \<and> read_pdf (projr archived_v2) ''./processed/a_exists_5.pdf'' = Inr older1"
  by code_simp

end
